theory Spec2Isabelle
  imports Main
begin

section \<open>The board model of the Tic-Tac-Toe program\<close>

text \<open>
  A cell of the board holds \<open>'X'\<close> (here \<open>MarkX\<close>), \<open>'O'\<close> (here \<open>MarkO\<close>) or \<open>None\<close>;
  a board is a Python list of cells (the program creates it with nine cells and never
  changes its length).
\<close>

datatype mark = MarkX | MarkO

type_synonym cell = "mark option"
type_synonym board = "cell list"

text \<open>
  The exceptions the search can raise: an index read or write outside the list, the
  conversion \<open>int(math.inf)\<close>, and the interpreter's limit on nested calls.
\<close>

datatype error = IndexError | OverflowError | RecursionError

text \<open>
  The numbers the search compares: the integer scores and the two floats
  \<open>-math.inf\<close> and \<open>math.inf\<close> that the window and the running optimum start from.
\<close>

datatype ext = MInf | Fin int | PInf

fun ext_le :: "ext \<Rightarrow> ext \<Rightarrow> bool" where
  "ext_le MInf y = True"
| "ext_le (Fin a) MInf = False"
| "ext_le (Fin a) (Fin b) = (a \<le> b)"
| "ext_le (Fin a) PInf = True"
| "ext_le PInf PInf = True"
| "ext_le PInf y = False"

instantiation ext :: linorder
begin

definition less_eq_ext :: "ext \<Rightarrow> ext \<Rightarrow> bool" where
  "less_eq_ext x y = ext_le x y"

definition less_ext :: "ext \<Rightarrow> ext \<Rightarrow> bool" where
  "less_ext x y = (ext_le x y \<and> \<not> ext_le y x)"

instance
proof
  fix x y z :: ext
  show "(x < y) = (x \<le> y \<and> \<not> y \<le> x)"
    by (simp add: less_ext_def less_eq_ext_def)
  show "x \<le> x"
    by (cases x) (simp_all add: less_eq_ext_def)
  show "x \<le> y \<Longrightarrow> y \<le> z \<Longrightarrow> x \<le> z"
    by (cases x; cases y; cases z) (simp_all add: less_eq_ext_def)
  show "x \<le> y \<Longrightarrow> y \<le> x \<Longrightarrow> x = y"
    by (cases x; cases y) (simp_all add: less_eq_ext_def)
  show "x \<le> y \<or> y \<le> x"
    by (cases x; cases y) (auto simp: less_eq_ext_def)
qed

end

text \<open>\<open>int(v)\<close>: the identity on an integer, \<open>OverflowError\<close> on an infinity.\<close>

fun to_int :: "ext \<Rightarrow> error + int" where
  "to_int (Fin i) = Inr i"
| "to_int MInf = Inl OverflowError"
| "to_int PInf = Inl OverflowError"

definition WIN_LINES :: "(nat \<times> nat \<times> nat) list" where
  "WIN_LINES =
     [(0, 1, 2), (3, 4, 5), (6, 7, 8),
      (0, 3, 6), (1, 4, 7), (2, 5, 8),
      (0, 4, 8), (2, 4, 6)]"

definition new_board :: board where
  "new_board = replicate 9 None"

text \<open>\<open>board[i]\<close> for a non-negative index, and the assignment \<open>board[i] = v\<close>.\<close>

definition getitem :: "board \<Rightarrow> nat \<Rightarrow> error + cell" where
  "getitem board i = (if i < length board then Inr (board ! i) else Inl IndexError)"

definition setitem :: "board \<Rightarrow> nat \<Rightarrow> cell \<Rightarrow> error + board" where
  "setitem board i v = (if i < length board then Inr (board[i := v]) else Inl IndexError)"

text \<open>
  \<open>check_winner\<close>: the loop over \<open>WIN_LINES\<close>. The condition
  \<open>board[a] and board[a] == board[b] == board[c]\<close> reads \<open>board[a]\<close> first, reads
  \<open>board[b]\<close> only when \<open>board[a]\<close> is a mark, and \<open>board[c]\<close> only when the first
  two are equal.
\<close>

fun check_lines :: "board \<Rightarrow> (nat \<times> nat \<times> nat) list \<Rightarrow> error + cell" where
  "check_lines board [] = Inr None"
| "check_lines board ((a, b, c) # ls) =
     (case getitem board a of
        Inl e \<Rightarrow> Inl e
      | Inr None \<Rightarrow> check_lines board ls
      | Inr (Some m) \<Rightarrow>
          (case getitem board b of
             Inl e \<Rightarrow> Inl e
           | Inr vb \<Rightarrow>
               if Some m \<noteq> vb then check_lines board ls
               else (case getitem board c of
                       Inl e \<Rightarrow> Inl e
                     | Inr vc \<Rightarrow>
                         if vb \<noteq> vc then check_lines board ls
                         else getitem board a)))"

definition check_winner :: "board \<Rightarrow> error + cell" where
  "check_winner board = check_lines board WIN_LINES"

definition is_board_full :: "board \<Rightarrow> bool" where
  "is_board_full board = list_all (\<lambda>cell. cell \<noteq> None) board"

definition game_over :: "board \<Rightarrow> error + bool" where
  "game_over board =
     (case check_winner board of
        Inl e \<Rightarrow> Inl e
      | Inr w \<Rightarrow> Inr (w \<noteq> None \<or> is_board_full board))"

definition available_moves :: "board \<Rightarrow> nat list" where
  "available_moves board = map fst (filter (\<lambda>(i, v). v = None) (enumerate 0 board))"

definition opponent :: "mark \<Rightarrow> mark" where
  "opponent player = (if player = MarkX then MarkO else MarkX)"

section \<open>The search\<close>

text \<open>
  \<open>minimax\<close> works on the caller's list: it writes the move, calls itself, and writes
  \<open>None\<close> back. The model passes the board in and returns it with the result. The
  first argument of \<open>minimax\<close> bounds the depth of nested calls, as the interpreter's
  recursion limit does; a call with no depth left raises \<open>RecursionError\<close>.

  The two \<open>for\<close> loops are \<open>max_loop\<close> and \<open>min_loop\<close>, over the list
  \<open>available_moves(board)\<close> computed when the loop starts; leaving a loop by \<open>break\<close>
  is the branch that does not go on. Their argument \<open>search\<close> is the recursive call:
  \<open>minimax\<close> with one level of depth less.
\<close>

type_synonym search =
  "board \<Rightarrow> mark \<Rightarrow> bool \<Rightarrow> ext \<Rightarrow> ext \<Rightarrow> error + (board \<times> int \<times> nat option)"

fun max_loop :: "search \<Rightarrow> board \<Rightarrow> mark \<Rightarrow> ext \<Rightarrow> ext \<Rightarrow> ext \<Rightarrow> nat option \<Rightarrow> nat list
                    \<Rightarrow> error + (board \<times> ext \<times> nat option)" where
  "max_loop search board player alpha beta max_eval best_move [] =
     Inr (board, max_eval, best_move)"
| "max_loop search board player alpha beta max_eval best_move (mv # mvs) =
     (case setitem board mv (Some player) of
        Inl e \<Rightarrow> Inl e
      | Inr board1 \<Rightarrow>
          (case search board1 (opponent player) False alpha beta of
             Inl e \<Rightarrow> Inl e
           | Inr (board2, eval_score, _) \<Rightarrow>
               (case setitem board2 mv None of
                  Inl e \<Rightarrow> Inl e
                | Inr board3 \<Rightarrow>
                    let max_eval' = (if max_eval < Fin eval_score then Fin eval_score else max_eval);
                        best_move' = (if max_eval < Fin eval_score then Some mv else best_move);
                        alpha' = max alpha (Fin eval_score)
                    in if beta \<le> alpha' then Inr (board3, max_eval', best_move')
                       else max_loop search board3 player alpha' beta max_eval' best_move' mvs)))"

fun min_loop :: "search \<Rightarrow> board \<Rightarrow> mark \<Rightarrow> ext \<Rightarrow> ext \<Rightarrow> ext \<Rightarrow> nat option \<Rightarrow> nat list
                    \<Rightarrow> error + (board \<times> ext \<times> nat option)" where
  "min_loop search board player alpha beta min_eval best_move [] =
     Inr (board, min_eval, best_move)"
| "min_loop search board player alpha beta min_eval best_move (mv # mvs) =
     (case setitem board mv (Some player) of
        Inl e \<Rightarrow> Inl e
      | Inr board1 \<Rightarrow>
          (case search board1 (opponent player) True alpha beta of
             Inl e \<Rightarrow> Inl e
           | Inr (board2, eval_score, _) \<Rightarrow>
               (case setitem board2 mv None of
                  Inl e \<Rightarrow> Inl e
                | Inr board3 \<Rightarrow>
                    let min_eval' = (if Fin eval_score < min_eval then Fin eval_score else min_eval);
                        best_move' = (if Fin eval_score < min_eval then Some mv else best_move);
                        beta' = min beta (Fin eval_score)
                    in if beta' \<le> alpha then Inr (board3, min_eval', best_move')
                       else min_loop search board3 player alpha beta' min_eval' best_move' mvs)))"

primrec minimax :: "nat \<Rightarrow> search" where
  "minimax 0 = (\<lambda>board player maximizing alpha beta. Inl RecursionError)"
| "minimax (Suc depth) = (\<lambda>board player maximizing alpha beta.
     (case check_winner board of
        Inl e \<Rightarrow> Inl e
      | Inr winner \<Rightarrow>
          if winner = Some MarkX then Inr (board, 1, None)
          else if winner = Some MarkO then Inr (board, - 1, None)
          else if is_board_full board then Inr (board, 0, None)
          else if maximizing then
            (case max_loop (minimax depth) board player alpha beta MInf None
                    (available_moves board) of
               Inl e \<Rightarrow> Inl e
             | Inr (board', max_eval, best_move) \<Rightarrow>
                 (case to_int max_eval of
                    Inl e \<Rightarrow> Inl e
                  | Inr score \<Rightarrow> Inr (board', score, best_move)))
          else
            (case min_loop (minimax depth) board player alpha beta PInf None
                    (available_moves board) of
               Inl e \<Rightarrow> Inl e
             | Inr (board', min_eval, best_move) \<Rightarrow>
                 (case to_int min_eval of
                    Inl e \<Rightarrow> Inl e
                  | Inr score \<Rightarrow> Inr (board', score, best_move)))))"

text \<open>
  \<open>best_move_for\<close>. \<open>random.choice\<close> picks the element at a random position of the
  list; the position drawn is the argument \<open>rnd\<close>. The result is the board as the call
  leaves it and the value returned, which is \<open>None\<close> when the search finds no move.
\<close>

definition opening_cells :: "nat list" where
  "opening_cells = [0, 2, 4, 6, 8]"

definition best_move_for :: "nat \<Rightarrow> nat \<Rightarrow> board \<Rightarrow> mark \<Rightarrow> error + (board \<times> nat option)" where
  "best_move_for depth rnd board ai_player =
     (if list_all (\<lambda>v. v = None) board then
        (if rnd < length opening_cells then Inr (board, Some (opening_cells ! rnd))
         else Inl IndexError)
      else if ai_player = MarkX then
        (case minimax depth board MarkX True MInf PInf of
           Inl e \<Rightarrow> Inl e
         | Inr (board', score, move) \<Rightarrow> Inr (board', move))
      else
        (case minimax depth board MarkO False MInf PInf of
           Inl e \<Rightarrow> Inl e
         | Inr (board', score, move) \<Rightarrow> Inr (board', move)))"


definition count_empty :: "board \<Rightarrow> nat" where
  "count_empty board = length (filter (\<lambda>c. c = None) board)"

lemma ext_le_simps [simp]:
  "Fin a \<le> Fin b \<longleftrightarrow> a \<le> b" "MInf \<le> x" "x \<le> PInf"
  "\<not> Fin a \<le> MInf" "\<not> PInf \<le> Fin a" "\<not> PInf \<le> MInf"
  by (cases x; simp add: less_eq_ext_def)+

lemma ext_less_simps [simp]:
  "Fin a < Fin b \<longleftrightarrow> a < b" "MInf < Fin a" "Fin a < PInf" "MInf < PInf"
  "\<not> x < MInf" "\<not> PInf < x"
  by (cases x; auto simp: less_ext_def)+

lemma ext_max_min [simp]:
  "max (Fin a) (Fin b) = Fin (max a b)" "min (Fin a) (Fin b) = Fin (min a b)"
  "max MInf x = x" "max x MInf = x" "min PInf x = x" "min x PInf = x"
  by (cases x; auto simp: max_def min_def)+

lemma getitem_in_range [simp]: "i < length board \<Longrightarrow> getitem board i = Inr (board ! i)"
  by (simp add: getitem_def)

lemma setitem_in_range [simp]: "i < length board \<Longrightarrow> setitem board i v = Inr (board[i := v])"
  by (simp add: setitem_def)

lemma setitem_Inr: "setitem board i v = Inr board' \<longleftrightarrow> i < length board \<and> board' = board[i := v]"
  by (auto simp: setitem_def)

lemma available_moves_set:
  "set (available_moves board) = {i. i < length board \<and> board ! i = None}"
  by (auto simp: available_moves_def in_set_enumerate_eq image_iff)

lemma available_moves_sorted: "sorted (available_moves board)"
  unfolding available_moves_def by (rule sorted_filter) (simp add: map_fst_enumerate)

lemma available_moves_distinct: "distinct (available_moves board)"
  unfolding available_moves_def by (rule distinct_map_filter) (simp add: map_fst_enumerate)

lemma is_board_full_iff: "is_board_full board \<longleftrightarrow> available_moves board = []"
proof -
  have "available_moves board = [] \<longleftrightarrow> set (available_moves board) = {}" by simp
  also have "\<dots> \<longleftrightarrow> (\<forall>i < length board. board ! i \<noteq> None)"
    by (auto simp: available_moves_set)
  also have "\<dots> \<longleftrightarrow> is_board_full board"
    by (simp add: is_board_full_def list_all_length)
  finally show ?thesis by simp
qed

lemma count_empty_update:
  "mv < length board \<Longrightarrow> board ! mv = None \<Longrightarrow>
     Suc (count_empty (board[mv := Some player])) = count_empty board"
proof (induction board arbitrary: mv)
  case Nil
  then show ?case by simp
next
  case (Cons c cs)
  then show ?case by (cases mv) (auto simp: count_empty_def)
qed

lemma count_empty_le: "count_empty board \<le> length board"
  by (simp add: count_empty_def)


definition line_won :: "board \<Rightarrow> nat \<times> nat \<times> nat \<Rightarrow> bool" where
  "line_won board l =
     (case l of (a, b, c) \<Rightarrow> board ! a \<noteq> None \<and> board ! a = board ! b \<and> board ! b = board ! c)"

lemma line_won_simp [simp]:
  "line_won board (a, b, c) \<longleftrightarrow>
     board ! a \<noteq> None \<and> board ! a = board ! b \<and> board ! b = board ! c"
  by (simp add: line_won_def)

lemma check_lines_find:
  "\<forall>(a, b, c)\<in>set ls. a < length board \<and> b < length board \<and> c < length board \<Longrightarrow>
   check_lines board ls =
     Inr (case find (line_won board) ls of None \<Rightarrow> None | Some (a, b, c) \<Rightarrow> board ! a)"
proof (induction ls)
  case Nil
  then show ?case by simp
next
  case (Cons l ls)
  obtain a b c where l: "l = (a, b, c)" by (cases l) auto
  from Cons.prems l have rng: "a < length board" "b < length board" "c < length board"
    by auto
  from Cons have IH: "check_lines board ls =
     Inr (case find (line_won board) ls of None \<Rightarrow> None | Some (a, b, c) \<Rightarrow> board ! a)"
    by simp
  show ?case
    unfolding l using rng IH
    by (cases "board ! a") auto
qed

lemma win_lines_in_range:
  "9 \<le> length board \<Longrightarrow>
   \<forall>(a, b, c)\<in>set WIN_LINES. a < length board \<and> b < length board \<and> c < length board"
  by (auto simp: WIN_LINES_def)

lemma check_winner_find:
  "9 \<le> length board \<Longrightarrow>
   check_winner board =
     Inr (case find (line_won board) WIN_LINES of None \<Rightarrow> None | Some (a, b, c) \<Rightarrow> board ! a)"
  unfolding check_winner_def by (rule check_lines_find) (rule win_lines_in_range)

lemma check_winner_total: "9 \<le> length board \<Longrightarrow> \<exists>w. check_winner board = Inr w"
  by (simp add: check_winner_find)

lemma check_lines_no_recursion_error: "check_lines board ls \<noteq> Inl RecursionError"
proof (induction ls)
  case Nil
  then show ?case by simp
next
  case (Cons l ls)
  obtain a b c where l: "l = (a, b, c)" by (cases l) auto
  show ?case
    unfolding l using Cons.IH
    by (auto simp: getitem_def split: sum.splits option.splits)
qed

subsection \<open>The search leaves the board as it found it\<close>

lemma restore_cell:
  "mv < length board \<Longrightarrow> board ! mv = None \<Longrightarrow> board[mv := Some player, mv := None] = board"
  by (simp add: list_update_same_conv)

lemma max_loop_frame:
  assumes callee: "\<And>b p m a be b' s mv. search b p m a be = Inr (b', s, mv) \<Longrightarrow> b' = b"
    and cells: "\<forall>mv\<in>set mvs. board ! mv = None"
    and res: "max_loop search board player alpha beta max_eval best_move mvs = Inr (board', me', bm')"
  shows "board' = board"
  using cells res
proof (induction mvs arbitrary: alpha max_eval best_move)
  case Nil
  then show ?case by simp
next
  case (Cons mv mvs)
  from Cons.prems(2) obtain board1 where s1: "setitem board mv (Some player) = Inr board1"
    by (auto split: sum.splits)
  then have rng: "mv < length board" and b1: "board1 = board[mv := Some player]"
    by (auto simp: setitem_Inr)
  from Cons.prems(2) s1 obtain board2 eval_score m
    where s2: "search board1 (opponent player) False alpha beta = Inr (board2, eval_score, m)"
    by (auto split: sum.splits)
  then have b2: "board2 = board1" by (rule callee)
  have "board ! mv = None" using Cons.prems(1) by simp
  then have s3: "setitem board2 mv None = Inr board"
    using rng b1 b2 by (simp add: list_update_same_conv)
  show ?case
  proof (cases "beta \<le> max alpha (Fin eval_score)")
    case True
    with Cons.prems(2) s1 s2 s3 show ?thesis by (simp add: Let_def)
  next
    case False
    with Cons.prems(2) s1 s2 s3 have
      "max_loop search board player (max alpha (Fin eval_score)) beta
         (if max_eval < Fin eval_score then Fin eval_score else max_eval)
         (if max_eval < Fin eval_score then Some mv else best_move) mvs = Inr (board', me', bm')"
      by (simp add: Let_def)
    with Cons.IH Cons.prems(1) show ?thesis by simp
  qed
qed


lemma min_loop_frame:
  assumes callee: "\<And>b p m a be b' s mv. search b p m a be = Inr (b', s, mv) \<Longrightarrow> b' = b"
    and cells: "\<forall>mv\<in>set mvs. board ! mv = None"
    and res: "min_loop search board player alpha beta min_eval best_move mvs = Inr (board', me', bm')"
  shows "board' = board"
  using cells res
proof (induction mvs arbitrary: beta min_eval best_move)
  case Nil
  then show ?case by simp
next
  case (Cons mv mvs)
  from Cons.prems(2) obtain board1 where s1: "setitem board mv (Some player) = Inr board1"
    by (auto split: sum.splits)
  then have rng: "mv < length board" and b1: "board1 = board[mv := Some player]"
    by (auto simp: setitem_Inr)
  from Cons.prems(2) s1 obtain board2 eval_score m
    where s2: "search board1 (opponent player) True alpha beta = Inr (board2, eval_score, m)"
    by (auto split: sum.splits)
  then have b2: "board2 = board1" by (rule callee)
  have "board ! mv = None" using Cons.prems(1) by simp
  then have s3: "setitem board2 mv None = Inr board"
    using rng b1 b2 by (simp add: list_update_same_conv)
  show ?case
  proof (cases "min beta (Fin eval_score) \<le> alpha")
    case True
    with Cons.prems(2) s1 s2 s3 show ?thesis by (simp add: Let_def)
  next
    case False
    with Cons.prems(2) s1 s2 s3 have
      "min_loop search board player alpha (min beta (Fin eval_score))
         (if Fin eval_score < min_eval then Fin eval_score else min_eval)
         (if Fin eval_score < min_eval then Some mv else best_move) mvs = Inr (board', me', bm')"
      by (simp add: Let_def)
    with Cons.IH Cons.prems(1) show ?thesis by simp
  qed
qed

lemma minimax_frame:
  "minimax depth board player maximizing alpha beta = Inr (board', s, m) \<Longrightarrow> board' = board"
proof (induction depth arbitrary: board player maximizing alpha beta board' s m)
  case 0
  then show ?case by simp
next
  case (Suc depth)
  have cells: "\<forall>mv\<in>set (available_moves board). board ! mv = None"
    by (simp add: available_moves_set)
  from Suc.prems obtain w where w: "check_winner board = Inr w"
    by (auto split: sum.splits)
  show ?case
  proof (cases "w = Some MarkX \<or> w = Some MarkO \<or> is_board_full board")
    case True
    with Suc.prems w show ?thesis by (auto split: if_splits)
  next
    case False
    show ?thesis
    proof (cases maximizing)
      case True
      with Suc.prems w False obtain me bm where
        "max_loop (minimax depth) board player alpha beta MInf None (available_moves board)
           = Inr (board', me, bm)"
        by (auto split: sum.splits)
      with Suc.IH cells show ?thesis by (rule max_loop_frame)
    next
      case mx: False
      with Suc.prems w False obtain me bm where
        "min_loop (minimax depth) board player alpha beta PInf None (available_moves board)
           = Inr (board', me, bm)"
        by (auto split: sum.splits)
      with Suc.IH cells show ?thesis by (rule min_loop_frame)
    qed
  qed
qed

lemma max_loop_step:
  assumes "mv < length board" "board ! mv = None"
    and "search (board[mv := Some player]) (opponent player) False alpha beta
           = Inr (board[mv := Some player], s, m)"
  shows "max_loop search board player alpha beta max_eval best_move (mv # mvs) =
     (if beta \<le> max alpha (Fin s)
      then Inr (board, (if max_eval < Fin s then Fin s else max_eval),
                (if max_eval < Fin s then Some mv else best_move))
      else max_loop search board player (max alpha (Fin s)) beta
             (if max_eval < Fin s then Fin s else max_eval)
             (if max_eval < Fin s then Some mv else best_move) mvs)"
proof -
  have "board[mv := None] = board"
    using assms(1,2) by (simp add: list_update_same_conv)
  then show ?thesis using assms by (simp add: Let_def)
qed

lemma min_loop_step:
  assumes "mv < length board" "board ! mv = None"
    and "search (board[mv := Some player]) (opponent player) True alpha beta
           = Inr (board[mv := Some player], s, m)"
  shows "min_loop search board player alpha beta min_eval best_move (mv # mvs) =
     (if min beta (Fin s) \<le> alpha
      then Inr (board, (if Fin s < min_eval then Fin s else min_eval),
                (if Fin s < min_eval then Some mv else best_move))
      else min_loop search board player alpha (min beta (Fin s))
             (if Fin s < min_eval then Fin s else min_eval)
             (if Fin s < min_eval then Some mv else best_move) mvs)"
proof -
  have "board[mv := None] = board"
    using assms(1,2) by (simp add: list_update_same_conv)
  then show ?thesis using assms by (simp add: Let_def)
qed


subsection \<open>The search returns on every board of nine cells\<close>

lemma max_loop_total:
  assumes cells: "\<forall>mv\<in>set mvs. mv < length board \<and> board ! mv = None"
    and callee: "\<forall>mv\<in>set mvs. \<forall>a b. \<exists>s m.
        search (board[mv := Some player]) (opponent player) False a b
          = Inr (board[mv := Some player], s, m)"
  shows "\<exists>me' bm'.
      max_loop search board player alpha beta max_eval best_move mvs = Inr (board, me', bm')
      \<and> max_eval \<le> me'
      \<and> (me' = max_eval \<longrightarrow> bm' = best_move)
      \<and> (max_eval < me' \<longrightarrow> (\<exists>j\<in>set mvs. bm' = Some j) \<and> (\<exists>i. me' = Fin i))
      \<and> (mvs \<noteq> [] \<longrightarrow> MInf < me')"
  using cells callee
proof (induction mvs arbitrary: alpha max_eval best_move)
  case Nil
  then show ?case by simp
next
  case (Cons mv mvs)
  from Cons.prems(1) have rng: "mv < length board" and cell: "board ! mv = None" by simp_all
  from Cons.prems(2) obtain s m where
    call: "search (board[mv := Some player]) (opponent player) False alpha beta
             = Inr (board[mv := Some player], s, m)"
    by (meson list.set_intros(1))
  define me1 where "me1 = (if max_eval < Fin s then Fin s else max_eval)"
  define bm1 where "bm1 = (if max_eval < Fin s then Some mv else best_move)"
  have step: "max_loop search board player alpha beta max_eval best_move (mv # mvs) =
     (if beta \<le> max alpha (Fin s) then Inr (board, me1, bm1)
      else max_loop search board player (max alpha (Fin s)) beta me1 bm1 mvs)"
    unfolding me1_def bm1_def using rng cell call by (rule max_loop_step)
  have me1_ge: "max_eval \<le> me1" by (simp add: me1_def less_imp_le)
  have me1_eq: "me1 = max_eval \<Longrightarrow> bm1 = best_move" by (auto simp: me1_def bm1_def)
  have me1_gt: "max_eval < me1 \<Longrightarrow> bm1 = Some mv \<and> me1 = Fin s"
    by (auto simp: me1_def bm1_def split: if_splits)
  have me1_fin: "MInf < me1"
  proof -
    have "Fin s \<le> me1" by (simp add: me1_def not_less)
    moreover have "MInf < Fin s" by simp
    ultimately show ?thesis by order
  qed
  show ?case
  proof (cases "beta \<le> max alpha (Fin s)")
    case True
    then have "max_loop search board player alpha beta max_eval best_move (mv # mvs)
        = Inr (board, me1, bm1)"
      using step by simp
    then show ?thesis using me1_ge me1_eq me1_gt me1_fin by auto
  next
    case False
    have "\<forall>mv\<in>set mvs. mv < length board \<and> board ! mv = None"
      using Cons.prems(1) by simp
    moreover have "\<forall>mv\<in>set mvs. \<forall>a b. \<exists>s m.
        search (board[mv := Some player]) (opponent player) False a b
          = Inr (board[mv := Some player], s, m)"
      using Cons.prems(2) by simp
    ultimately obtain me' bm' where
      res: "max_loop search board player (max alpha (Fin s)) beta me1 bm1 mvs = Inr (board, me', bm')"
      and ge: "me1 \<le> me'"
      and eq: "me' = me1 \<longrightarrow> bm' = bm1"
      and gt: "me1 < me' \<longrightarrow> (\<exists>j\<in>set mvs. bm' = Some j) \<and> (\<exists>i. me' = Fin i)"
      using Cons.IH [of "max alpha (Fin s)" me1 bm1] by blast
    have r: "max_loop search board player alpha beta max_eval best_move (mv # mvs)
        = Inr (board, me', bm')"
      using step False res by simp
    have c1: "max_eval \<le> me'" using me1_ge ge by order
    have c2: "me' = max_eval \<longrightarrow> bm' = best_move"
    proof
      assume h: "me' = max_eval"
      then have "me1 = max_eval" using me1_ge ge by order
      then show "bm' = best_move" using h eq me1_eq by simp
    qed
    have c3: "max_eval < me' \<longrightarrow> (\<exists>j\<in>set (mv # mvs). bm' = Some j) \<and> (\<exists>i. me' = Fin i)"
    proof
      assume h: "max_eval < me'"
      show "(\<exists>j\<in>set (mv # mvs). bm' = Some j) \<and> (\<exists>i. me' = Fin i)"
      proof (cases "me1 < me'")
        case True
        then show ?thesis using gt by auto
      next
        case False
        then have e: "me' = me1" using ge by order
        then have "max_eval < me1" using h by simp
        then show ?thesis using me1_gt e eq by auto
      qed
    qed
    have c4: "MInf < me'" using me1_fin ge by order
    show ?thesis using r c1 c2 c3 c4 by blast
  qed
qed

lemma min_loop_total:
  assumes cells: "\<forall>mv\<in>set mvs. mv < length board \<and> board ! mv = None"
    and callee: "\<forall>mv\<in>set mvs. \<forall>a b. \<exists>s m.
        search (board[mv := Some player]) (opponent player) True a b
          = Inr (board[mv := Some player], s, m)"
  shows "\<exists>me' bm'.
      min_loop search board player alpha beta min_eval best_move mvs = Inr (board, me', bm')
      \<and> me' \<le> min_eval
      \<and> (me' = min_eval \<longrightarrow> bm' = best_move)
      \<and> (me' < min_eval \<longrightarrow> (\<exists>j\<in>set mvs. bm' = Some j) \<and> (\<exists>i. me' = Fin i))
      \<and> (mvs \<noteq> [] \<longrightarrow> me' < PInf)"
  using cells callee
proof (induction mvs arbitrary: beta min_eval best_move)
  case Nil
  then show ?case by simp
next
  case (Cons mv mvs)
  from Cons.prems(1) have rng: "mv < length board" and cell: "board ! mv = None" by simp_all
  from Cons.prems(2) obtain s m where
    call: "search (board[mv := Some player]) (opponent player) True alpha beta
             = Inr (board[mv := Some player], s, m)"
    by (meson list.set_intros(1))
  define me1 where "me1 = (if Fin s < min_eval then Fin s else min_eval)"
  define bm1 where "bm1 = (if Fin s < min_eval then Some mv else best_move)"
  have step: "min_loop search board player alpha beta min_eval best_move (mv # mvs) =
     (if min beta (Fin s) \<le> alpha then Inr (board, me1, bm1)
      else min_loop search board player alpha (min beta (Fin s)) me1 bm1 mvs)"
    unfolding me1_def bm1_def using rng cell call by (rule min_loop_step)
  have me1_le: "me1 \<le> min_eval" by (simp add: me1_def less_imp_le)
  have me1_eq: "me1 = min_eval \<Longrightarrow> bm1 = best_move" by (auto simp: me1_def bm1_def)
  have me1_lt: "me1 < min_eval \<Longrightarrow> bm1 = Some mv \<and> me1 = Fin s"
    by (auto simp: me1_def bm1_def split: if_splits)
  have me1_fin: "me1 < PInf"
  proof -
    have "me1 \<le> Fin s" by (simp add: me1_def not_less)
    moreover have "Fin s < PInf" by simp
    ultimately show ?thesis by order
  qed
  show ?case
  proof (cases "min beta (Fin s) \<le> alpha")
    case True
    then have "min_loop search board player alpha beta min_eval best_move (mv # mvs)
        = Inr (board, me1, bm1)"
      using step by simp
    then show ?thesis using me1_le me1_eq me1_lt me1_fin by auto
  next
    case False
    have "\<forall>mv\<in>set mvs. mv < length board \<and> board ! mv = None"
      using Cons.prems(1) by simp
    moreover have "\<forall>mv\<in>set mvs. \<forall>a b. \<exists>s m.
        search (board[mv := Some player]) (opponent player) True a b
          = Inr (board[mv := Some player], s, m)"
      using Cons.prems(2) by simp
    ultimately obtain me' bm' where
      res: "min_loop search board player alpha (min beta (Fin s)) me1 bm1 mvs = Inr (board, me', bm')"
      and le: "me' \<le> me1"
      and eq: "me' = me1 \<longrightarrow> bm' = bm1"
      and lt: "me' < me1 \<longrightarrow> (\<exists>j\<in>set mvs. bm' = Some j) \<and> (\<exists>i. me' = Fin i)"
      using Cons.IH [of "min beta (Fin s)" me1 bm1] by blast
    have r: "min_loop search board player alpha beta min_eval best_move (mv # mvs)
        = Inr (board, me', bm')"
      using step False res by simp
    have c1: "me' \<le> min_eval" using me1_le le by order
    have c2: "me' = min_eval \<longrightarrow> bm' = best_move"
    proof
      assume h: "me' = min_eval"
      then have "me1 = min_eval" using me1_le le by order
      then show "bm' = best_move" using h eq me1_eq by simp
    qed
    have c3: "me' < min_eval \<longrightarrow> (\<exists>j\<in>set (mv # mvs). bm' = Some j) \<and> (\<exists>i. me' = Fin i)"
    proof
      assume h: "me' < min_eval"
      show "(\<exists>j\<in>set (mv # mvs). bm' = Some j) \<and> (\<exists>i. me' = Fin i)"
      proof (cases "me' < me1")
        case True
        then show ?thesis using lt by auto
      next
        case False
        then have e: "me' = me1" using le by order
        then have "me1 < min_eval" using h by simp
        then show ?thesis using me1_lt e eq by auto
      qed
    qed
    have c4: "me' < PInf" using me1_fin le by order
    show ?thesis using r c1 c2 c3 c4 by blast
  qed
qed

lemma child_board:
  assumes "9 \<le> length board" "count_empty board < Suc depth" "mv \<in> set (available_moves board)"
  shows "9 \<le> length (board[mv := Some player])"
    and "count_empty (board[mv := Some player]) < depth"
    and "mv < length board" and "board ! mv = None"
proof -
  from assms(3) show rng: "mv < length board" and cell: "board ! mv = None"
    by (simp_all add: available_moves_set)
  from assms(1) show "9 \<le> length (board[mv := Some player])" by simp
  from count_empty_update [OF rng cell, of player] assms(2)
  show "count_empty (board[mv := Some player]) < depth" by simp
qed

lemma minimax_total:
  "9 \<le> length board \<Longrightarrow> count_empty board < depth \<Longrightarrow>
   \<exists>s m. minimax depth board player maximizing alpha beta = Inr (board, s, m)
     \<and> (check_winner board \<noteq> Inr None \<or> is_board_full board \<longrightarrow> m = None)
     \<and> (check_winner board = Inr None \<and> \<not> is_board_full board
          \<longrightarrow> (\<exists>j\<in>set (available_moves board). m = Some j))"
proof (induction depth arbitrary: board player maximizing alpha beta)
  case 0
  then show ?case by simp
next
  case (Suc depth)
  from Suc.prems(1) obtain w where w: "check_winner board = Inr w"
    using check_winner_total by blast
  show ?case
  proof (cases "w = Some MarkX \<or> w = Some MarkO \<or> is_board_full board")
    case True
    then show ?thesis using w by auto
  next
    case False
    then have nf: "\<not> is_board_full board" and "w \<noteq> Some MarkX" "w \<noteq> Some MarkO"
      by simp_all
    then have wn: "w = None" by (metis mark.exhaust option.exhaust)
    have ne: "available_moves board \<noteq> []" using nf by (simp add: is_board_full_iff)
    have cells: "\<forall>mv\<in>set (available_moves board). mv < length board \<and> board ! mv = None"
      by (simp add: available_moves_set)
    show ?thesis
    proof (cases maximizing)
      case True
      have "\<forall>mv\<in>set (available_moves board). \<forall>a b. \<exists>s m.
          minimax depth (board[mv := Some player]) (opponent player) False a b
            = Inr (board[mv := Some player], s, m)"
        using Suc.IH child_board(1,2) [OF Suc.prems] by blast
      with cells obtain me' bm' where
        res: "max_loop (minimax depth) board player alpha beta MInf None (available_moves board)
                = Inr (board, me', bm')"
        and gt: "MInf < me' \<longrightarrow> (\<exists>j\<in>set (available_moves board). bm' = Some j) \<and> (\<exists>i. me' = Fin i)"
        and fin: "available_moves board \<noteq> [] \<longrightarrow> MInf < me'"
        using max_loop_total [of "available_moves board" board "minimax depth" player alpha beta MInf None]
        by blast
      from gt fin ne obtain j i where "j \<in> set (available_moves board)" "bm' = Some j" "me' = Fin i"
        by auto
      then show ?thesis using w wn nf True res by auto
    next
      case mx: False
      have "\<forall>mv\<in>set (available_moves board). \<forall>a b. \<exists>s m.
          minimax depth (board[mv := Some player]) (opponent player) True a b
            = Inr (board[mv := Some player], s, m)"
        using Suc.IH child_board(1,2) [OF Suc.prems] by blast
      with cells obtain me' bm' where
        res: "min_loop (minimax depth) board player alpha beta PInf None (available_moves board)
                = Inr (board, me', bm')"
        and lt: "me' < PInf \<longrightarrow> (\<exists>j\<in>set (available_moves board). bm' = Some j) \<and> (\<exists>i. me' = Fin i)"
        and fin: "available_moves board \<noteq> [] \<longrightarrow> me' < PInf"
        using min_loop_total [of "available_moves board" board "minimax depth" player alpha beta PInf None]
        by blast
      from lt fin ne obtain j i where "j \<in> set (available_moves board)" "bm' = Some j" "me' = Fin i"
        by auto
      then show ?thesis using w wn nf mx res by auto
    qed
  qed
qed


subsection \<open>The depth of the recursion\<close>

lemma max_loop_no_recursion_error:
  assumes cells: "\<forall>mv\<in>set mvs. board ! mv = None"
    and callee: "\<forall>mv\<in>set mvs. \<forall>a b.
        search (board[mv := Some player]) (opponent player) False a b \<noteq> Inl RecursionError"
    and frame: "\<And>b p m a be b' s mv. search b p m a be = Inr (b', s, mv) \<Longrightarrow> b' = b"
  shows "max_loop search board player alpha beta max_eval best_move mvs \<noteq> Inl RecursionError"
  using cells callee
proof (induction mvs arbitrary: alpha max_eval best_move)
  case Nil
  then show ?case by simp
next
  case (Cons mv mvs)
  from Cons.prems(1) have cell: "board ! mv = None" by simp
  show ?case
  proof (cases "mv < length board")
    case False
    then show ?thesis by (simp add: setitem_def)
  next
    case rng: True
    show ?thesis
    proof (cases "search (board[mv := Some player]) (opponent player) False alpha beta")
      case (Inl e)
      moreover have "e \<noteq> RecursionError" using Cons.prems(2) Inl by auto
      ultimately show ?thesis using rng by simp
    next
      case (Inr r)
      obtain b2 s m where r: "r = (b2, s, m)" by (cases r) auto
      with Inr have "b2 = board[mv := Some player]" using frame by blast
      with Inr r have call: "search (board[mv := Some player]) (opponent player) False alpha beta
             = Inr (board[mv := Some player], s, m)" by simp
      have rest: "max_loop search board player (max alpha (Fin s)) beta
             (if max_eval < Fin s then Fin s else max_eval)
             (if max_eval < Fin s then Some mv else best_move) mvs \<noteq> Inl RecursionError"
        using Cons.IH Cons.prems by simp
      show ?thesis
        unfolding max_loop_step [of mv board search player alpha beta s m, OF rng cell call]
        using rest by simp
    qed
  qed
qed

lemma min_loop_no_recursion_error:
  assumes cells: "\<forall>mv\<in>set mvs. board ! mv = None"
    and callee: "\<forall>mv\<in>set mvs. \<forall>a b.
        search (board[mv := Some player]) (opponent player) True a b \<noteq> Inl RecursionError"
    and frame: "\<And>b p m a be b' s mv. search b p m a be = Inr (b', s, mv) \<Longrightarrow> b' = b"
  shows "min_loop search board player alpha beta min_eval best_move mvs \<noteq> Inl RecursionError"
  using cells callee
proof (induction mvs arbitrary: beta min_eval best_move)
  case Nil
  then show ?case by simp
next
  case (Cons mv mvs)
  from Cons.prems(1) have cell: "board ! mv = None" by simp
  show ?case
  proof (cases "mv < length board")
    case False
    then show ?thesis by (simp add: setitem_def)
  next
    case rng: True
    show ?thesis
    proof (cases "search (board[mv := Some player]) (opponent player) True alpha beta")
      case (Inl e)
      moreover have "e \<noteq> RecursionError" using Cons.prems(2) Inl by auto
      ultimately show ?thesis using rng by simp
    next
      case (Inr r)
      obtain b2 s m where r: "r = (b2, s, m)" by (cases r) auto
      with Inr have "b2 = board[mv := Some player]" using frame by blast
      with Inr r have call: "search (board[mv := Some player]) (opponent player) True alpha beta
             = Inr (board[mv := Some player], s, m)" by simp
      have rest: "min_loop search board player alpha (min beta (Fin s))
             (if Fin s < min_eval then Fin s else min_eval)
             (if Fin s < min_eval then Some mv else best_move) mvs \<noteq> Inl RecursionError"
        using Cons.IH Cons.prems by simp
      show ?thesis
        unfolding min_loop_step [of mv board search player alpha beta s m, OF rng cell call]
        using rest by simp
    qed
  qed
qed

lemma check_winner_no_recursion_error: "check_winner board \<noteq> Inl RecursionError"
  by (simp add: check_winner_def check_lines_no_recursion_error)

lemma to_int_no_recursion_error: "to_int v \<noteq> Inl RecursionError"
  by (cases v) simp_all

lemma minimax_no_recursion_error:
  "count_empty board < depth \<Longrightarrow>
   minimax depth board player maximizing alpha beta \<noteq> Inl RecursionError"
proof (induction depth arbitrary: board player maximizing alpha beta)
  case 0
  then show ?case by simp
next
  case (Suc depth)
  have cells: "\<forall>mv\<in>set (available_moves board). board ! mv = None"
    by (simp add: available_moves_set)
  have callee: "\<forall>mv\<in>set (available_moves board). \<forall>a b.
      minimax depth (board[mv := Some player]) (opponent player) mx a b \<noteq> Inl RecursionError" for mx
  proof (intro ballI allI)
    fix mv a b
    assume "mv \<in> set (available_moves board)"
    then have "mv < length board" "board ! mv = None" by (simp_all add: available_moves_set)
    from count_empty_update [OF this, of player] Suc.prems
    have "count_empty (board[mv := Some player]) < depth" by simp
    then show "minimax depth (board[mv := Some player]) (opponent player) mx a b \<noteq> Inl RecursionError"
      by (rule Suc.IH)
  qed
  have mx: "max_loop (minimax depth) board player alpha beta MInf None (available_moves board)
      \<noteq> Inl RecursionError"
    using cells callee minimax_frame by (rule max_loop_no_recursion_error)
  have mn: "min_loop (minimax depth) board player alpha beta PInf None (available_moves board)
      \<noteq> Inl RecursionError"
    using cells callee minimax_frame by (rule min_loop_no_recursion_error)
  show ?case
    using mx mn check_winner_no_recursion_error [of board] to_int_no_recursion_error
    by (auto split: sum.splits)
qed


section \<open>Claims about the board model and the frame of the search\<close>

text \<open>
  C4. On a board of at least nine cells, \<open>check_winner\<close> goes through the eight win
  lines (three rows, three columns, two diagonals) in their fixed order and returns the
  mark of the first line whose three cells hold the same mark; it returns \<open>None\<close> when
  no line is completed.
\<close>

theorem check_winner_first_line:
  assumes "9 \<le> length board"
  shows "WIN_LINES = [(0, 1, 2), (3, 4, 5), (6, 7, 8), (0, 3, 6), (1, 4, 7), (2, 5, 8),
                      (0, 4, 8), (2, 4, 6)]
    \<and> check_winner board =
         Inr (case find (line_won board) WIN_LINES of
                None \<Rightarrow> None
              | Some (a, b, c) \<Rightarrow> board ! a)"
  using assms by (simp add: check_winner_find) (simp add: WIN_LINES_def)

theorem check_winner_first_line_witness:
  "check_winner [Some MarkO, Some MarkX, Some MarkX,
                 Some MarkO, Some MarkX, None,
                 Some MarkO, Some MarkX, None] = Inr (Some MarkO)
   \<and> find (line_won [Some MarkO, Some MarkX, Some MarkX,
                      Some MarkO, Some MarkX, None,
                      Some MarkO, Some MarkX, None]) WIN_LINES = Some (0, 3, 6)"
  using check_winner_first_line [of "[Some MarkO, Some MarkX, Some MarkX,
                 Some MarkO, Some MarkX, None,
                 Some MarkO, Some MarkX, None]"]
  by (simp add: WIN_LINES_def)

text \<open>
  C5, as amended. The search checks for a finished game before it looks at any move, and
  it takes the verdict of \<open>check_winner\<close>: when only \<open>X\<close> has a completed line it
  returns \<open>(1, None)\<close>, when only \<open>O\<close> has one \<open>(-1, None)\<close>, and on a full board with no
  completed line \<open>(0, None)\<close>. One level of depth is enough, so no recursive call is
  made. On a board where both marks have a line (no game reaches one) the mark of the
  first completed line decides.
\<close>

definition has_line :: "board \<Rightarrow> mark \<Rightarrow> bool" where
  "has_line board m =
     list_ex (\<lambda>(a, b, c). board ! a = Some m \<and> board ! b = Some m \<and> board ! c = Some m)
       WIN_LINES"

lemma line_won_iff:
  "line_won board (a, b, c) \<longleftrightarrow>
     (\<exists>m. board ! a = Some m \<and> board ! b = Some m \<and> board ! c = Some m)"
  by (cases "board ! a") auto

lemma has_line_iff:
  "has_line board m \<longleftrightarrow>
     (\<exists>(a, b, c)\<in>set WIN_LINES. board ! a = Some m \<and> board ! b = Some m \<and> board ! c = Some m)"
  by (simp add: has_line_def list_ex_iff)

lemma find_line_won_None:
  "find (line_won board) WIN_LINES = None \<longleftrightarrow> (\<forall>m. \<not> has_line board m)"
proof
  assume "find (line_won board) WIN_LINES = None"
  then have n: "\<forall>l\<in>set WIN_LINES. \<not> line_won board l" unfolding find_None_iff by blast
  show "\<forall>m. \<not> has_line board m"
  proof (intro allI notI)
    fix m assume "has_line board m"
    then obtain a b c where "(a, b, c) \<in> set WIN_LINES"
      "board ! a = Some m \<and> board ! b = Some m \<and> board ! c = Some m"
      by (auto simp: has_line_iff)
    then show False using n line_won_iff [of board a b c] by blast
  qed
next
  assume h: "\<forall>m. \<not> has_line board m"
  have "\<not> line_won board l" if "l \<in> set WIN_LINES" for l
  proof -
    obtain a b c where l: "l = (a, b, c)" by (cases l) auto
    show ?thesis using h that unfolding l line_won_iff has_line_iff by blast
  qed
  then show "find (line_won board) WIN_LINES = None" unfolding find_None_iff by blast
qed

lemma find_line_won_Some:
  assumes "find (line_won board) WIN_LINES = Some (a, b, c)"
  shows "\<exists>m. board ! a = Some m \<and> has_line board m"
proof -
  from assms obtain i where i: "i < length WIN_LINES" "line_won board (WIN_LINES ! i)"
    "(a, b, c) = WIN_LINES ! i"
    unfolding find_Some_iff by blast
  from i(1,3) have "(a, b, c) \<in> set WIN_LINES" by (metis nth_mem)
  moreover from i(2,3) have "line_won board (a, b, c)" by metis
  ultimately show ?thesis unfolding line_won_iff has_line_iff by blast
qed

lemma check_winner_has_line:
  assumes "9 \<le> length board"
  shows "\<exists>w. check_winner board = Inr w
           \<and> (w = None \<longleftrightarrow> (\<forall>m. \<not> has_line board m))
           \<and> (\<forall>m. w = Some m \<longrightarrow> has_line board m)"
proof (cases "find (line_won board) WIN_LINES")
  case None
  then show ?thesis
    using assms find_line_won_None [of board] by (simp add: check_winner_find)
next
  case (Some l)
  obtain a b c where l: "l = (a, b, c)" by (cases l) auto
  from find_line_won_Some [of board a b c] Some l obtain m
    where m: "board ! a = Some m" "has_line board m" by auto
  have "check_winner board = Inr (Some m)"
    using assms Some l m by (simp add: check_winner_find)
  then show ?thesis using m by auto
qed

theorem minimax_terminal:
  assumes "9 \<le> length board"
  shows "(has_line board MarkX \<and> \<not> has_line board MarkO \<longrightarrow>
      minimax (Suc depth) board player maximizing alpha beta = Inr (board, 1, None))
   \<and> (has_line board MarkO \<and> \<not> has_line board MarkX \<longrightarrow>
      minimax (Suc depth) board player maximizing alpha beta = Inr (board, - 1, None))
   \<and> (\<not> has_line board MarkX \<and> \<not> has_line board MarkO \<and> is_board_full board \<longrightarrow>
      minimax (Suc depth) board player maximizing alpha beta = Inr (board, 0, None))
   \<and> (check_winner board = Inr (Some MarkX) \<longrightarrow>
      minimax (Suc depth) board player maximizing alpha beta = Inr (board, 1, None))
   \<and> (check_winner board = Inr (Some MarkO) \<longrightarrow>
      minimax (Suc depth) board player maximizing alpha beta = Inr (board, - 1, None))"
proof -
  from check_winner_has_line [OF assms] obtain w where
    w: "check_winner board = Inr w"
    and none: "w = None \<longleftrightarrow> (\<forall>m. \<not> has_line board m)"
    and some: "\<forall>m. w = Some m \<longrightarrow> has_line board m"
    by blast
  have all: "(\<forall>m. \<not> has_line board m) \<longleftrightarrow> \<not> has_line board MarkX \<and> \<not> has_line board MarkO"
    by (metis mark.exhaust)
  have x: "has_line board MarkX \<and> \<not> has_line board MarkO \<longrightarrow> w = Some MarkX"
    using none some all by (cases w) (auto, metis mark.exhaust)
  have o: "has_line board MarkO \<and> \<not> has_line board MarkX \<longrightarrow> w = Some MarkO"
    using none some all by (cases w) (auto, metis mark.exhaust)
  have n: "\<not> has_line board MarkX \<and> \<not> has_line board MarkO \<longrightarrow> w = None"
    using none all by simp
  show ?thesis using w x o n by auto
qed

theorem minimax_terminal_witness:
  "minimax (Suc 0) [Some MarkX, Some MarkX, Some MarkX,
                    Some MarkO, Some MarkO, None,
                    None, None, None] MarkO False MInf PInf
     = Inr ([Some MarkX, Some MarkX, Some MarkX, Some MarkO, Some MarkO, None, None, None, None],
            1, None)
   \<and> minimax (Suc 0) [Some MarkO, Some MarkO, Some MarkO,
                      Some MarkX, Some MarkX, None,
                      Some MarkX, None, None] MarkX True MInf PInf
     = Inr ([Some MarkO, Some MarkO, Some MarkO, Some MarkX, Some MarkX, None, Some MarkX, None, None],
            - 1, None)
   \<and> minimax (Suc 0) [Some MarkX, Some MarkO, Some MarkX,
                      Some MarkX, Some MarkO, Some MarkO,
                      Some MarkO, Some MarkX, Some MarkX] MarkO False MInf PInf
     = Inr ([Some MarkX, Some MarkO, Some MarkX, Some MarkX, Some MarkO, Some MarkO,
             Some MarkO, Some MarkX, Some MarkX], 0, None)"
proof -
  let ?bx = "[Some MarkX, Some MarkX, Some MarkX, Some MarkO, Some MarkO, None,
              None, None, None]"
  let ?bo = "[Some MarkO, Some MarkO, Some MarkO, Some MarkX, Some MarkX, None,
              Some MarkX, None, None]"
  let ?bd = "[Some MarkX, Some MarkO, Some MarkX, Some MarkX, Some MarkO, Some MarkO,
              Some MarkO, Some MarkX, Some MarkX]"
  have x: "has_line ?bx MarkX \<and> \<not> has_line ?bx MarkO"
    by (simp add: has_line_def WIN_LINES_def)
  have o: "has_line ?bo MarkO \<and> \<not> has_line ?bo MarkX"
    by (simp add: has_line_def WIN_LINES_def)
  have d: "\<not> has_line ?bd MarkX \<and> \<not> has_line ?bd MarkO \<and> is_board_full ?bd"
    by (simp add: has_line_def WIN_LINES_def is_board_full_def)
  have l: "9 \<le> length ?bx" "9 \<le> length ?bo" "9 \<le> length ?bd" by simp_all
  from x o d
    minimax_terminal [OF l(1), of 0 MarkO False MInf PInf]
    minimax_terminal [OF l(2), of 0 MarkX True MInf PInf]
    minimax_terminal [OF l(3), of 0 MarkO False MInf PInf]
  show ?thesis by blast
qed

text \<open>
  The claim as it is written also covers boards on which both marks have a line. On
  the board below \<open>O\<close> has a completed line (the middle row), and the search returns
  \<open>(1, None)\<close>, not \<open>(-1, None)\<close>: the top row of \<open>X\<close> comes first in \<open>WIN_LINES\<close>.
\<close>

theorem minimax_terminal_counterexample:
  "has_line [Some MarkX, Some MarkX, Some MarkX,
             Some MarkO, Some MarkO, Some MarkO,
             None, None, None] MarkO
   \<and> minimax (Suc 0) [Some MarkX, Some MarkX, Some MarkX,
                      Some MarkO, Some MarkO, Some MarkO,
                      None, None, None] MarkX True MInf PInf
     \<noteq> Inr ([Some MarkX, Some MarkX, Some MarkX, Some MarkO, Some MarkO, Some MarkO,
              None, None, None], - 1, None)"
  by (simp add: has_line_def WIN_LINES_def check_winner_def)

text \<open>
  C3. Whenever the search returns, the board is as it was when the search was called:
  every mark written during the lookahead has been taken back, also when a loop was left
  early. On a board of at least nine cells, with depth for one call more than there are
  empty cells, the search does return.
\<close>

theorem minimax_restores_board:
  "(\<forall>board' score move.
        minimax depth board player maximizing alpha beta = Inr (board', score, move)
        \<longrightarrow> board' = board)
   \<and> (9 \<le> length board \<and> count_empty board < depth \<longrightarrow>
        (\<exists>score move. minimax depth board player maximizing alpha beta = Inr (board, score, move)))"
  using minimax_frame minimax_total by blast

theorem minimax_restores_board_witness:
  "\<exists>score move.
      minimax 10 [Some MarkX, Some MarkO, None, None, Some MarkX, None, None, None, Some MarkO]
        MarkX True MInf PInf
      = Inr ([Some MarkX, Some MarkO, None, None, Some MarkX, None, None, None, Some MarkO],
             score, move)"
proof -
  have "9 \<le> length [Some MarkX, Some MarkO, None, None, Some MarkX, None, None, None, Some MarkO]
      \<and> count_empty [Some MarkX, Some MarkO, None, None, Some MarkX, None, None, None, Some MarkO]
          < 10"
    by (simp add: count_empty_def)
  with minimax_restores_board
    [of 10 "[Some MarkX, Some MarkO, None, None, Some MarkX, None, None, None, Some MarkO]"
        MarkX True MInf PInf]
  show ?thesis by blast
qed

text \<open>
  C8. On a finished board (a completed line, or no empty cell) the search returns
  \<open>None\<close> as its move, and so does \<open>best_move_for\<close> (such a board is not the empty
  board, so the search is what it runs).
\<close>

theorem terminal_board_no_move:
  assumes "game_over board = Inr True"
  shows "(\<exists>score. minimax (Suc depth) board player maximizing alpha beta = Inr (board, score, None))
    \<and> (\<not> list_all (\<lambda>v. v = None) board \<longrightarrow>
          best_move_for (Suc depth) rnd board ai_player = Inr (board, None))"
proof -
  from assms obtain w where w: "check_winner board = Inr w"
    and t: "w \<noteq> None \<or> is_board_full board"
    by (auto simp: game_over_def split: sum.splits)
  have done_: "\<exists>score. minimax (Suc depth) board p mx a b = Inr (board, score, None)" for p mx a b
  proof (cases w)
    case None
    then show ?thesis using w t by simp
  next
    case (Some mk)
    then show ?thesis using w by (cases mk) simp_all
  qed
  from done_ obtain sx where sx: "minimax (Suc depth) board MarkX True MInf PInf = Inr (board, sx, None)"
    by blast
  from done_ obtain so where so: "minimax (Suc depth) board MarkO False MInf PInf = Inr (board, so, None)"
    by blast
  have "\<not> list_all (\<lambda>v. v = None) board \<longrightarrow>
          best_move_for (Suc depth) rnd board ai_player = Inr (board, None)"
    unfolding best_move_for_def sx so by simp
  with done_ show ?thesis by blast
qed

theorem terminal_board_no_move_witness:
  "game_over [Some MarkX, Some MarkX, Some MarkX, Some MarkO, Some MarkO, None, None, None, None]
     = Inr True
   \<and> (\<exists>score. minimax (Suc 0)
          [Some MarkX, Some MarkX, Some MarkX, Some MarkO, Some MarkO, None, None, None, None]
          MarkO False MInf PInf
        = Inr ([Some MarkX, Some MarkX, Some MarkX, Some MarkO, Some MarkO, None, None, None, None],
               score, None))
   \<and> best_move_for (Suc 0) 0
          [Some MarkX, Some MarkX, Some MarkX, Some MarkO, Some MarkO, None, None, None, None] MarkO
        = Inr ([Some MarkX, Some MarkX, Some MarkX, Some MarkO, Some MarkO, None, None, None, None],
               None)"
proof -
  let ?b = "[Some MarkX, Some MarkX, Some MarkX, Some MarkO, Some MarkO, None, None, None, None]"
  have g: "game_over ?b = Inr True"
    by (simp add: game_over_def check_winner_def WIN_LINES_def)
  have n: "\<not> list_all (\<lambda>v. v = None) ?b" by simp
  from terminal_board_no_move [OF g, of 0 MarkO False MInf PInf 0 MarkO] g n
  show ?thesis by blast
qed

text \<open>
  C10. The search never runs out of depth when it is given one level more than the
  board has empty cells, on any board; every move it tries leaves one empty cell less
  for the recursive call; so on a board of nine cells the calls nest at most nine deep
  below the first one, and the search returns a result.
\<close>

theorem minimax_depth_bounded:
  "(count_empty board < depth \<longrightarrow>
      minimax depth board player maximizing alpha beta \<noteq> Inl RecursionError)
   \<and> (\<forall>mv\<in>set (available_moves board).
        Suc (count_empty (board[mv := Some player])) = count_empty board)
   \<and> (length board = 9 \<longrightarrow>
        count_empty board \<le> 9
        \<and> (\<exists>score move. minimax (Suc 9) board player maximizing alpha beta
                          = Inr (board, score, move)))"
proof -
  have a: "count_empty board < depth \<longrightarrow>
      minimax depth board player maximizing alpha beta \<noteq> Inl RecursionError"
    using minimax_no_recursion_error by blast
  have b: "\<forall>mv\<in>set (available_moves board).
        Suc (count_empty (board[mv := Some player])) = count_empty board"
    by (simp add: available_moves_set count_empty_update)
  have c: "length board = 9 \<longrightarrow>
        count_empty board \<le> 9
        \<and> (\<exists>score move. minimax (Suc 9) board player maximizing alpha beta
                          = Inr (board, score, move))"
  proof
    assume l: "length board = 9"
    then have le: "count_empty board \<le> 9" using count_empty_le [of board] by simp
    then have "count_empty board < Suc 9" by simp
    moreover have "9 \<le> length board" using l by simp
    ultimately have "\<exists>score move. minimax (Suc 9) board player maximizing alpha beta
                          = Inr (board, score, move)"
      using minimax_total [of board "Suc 9" player maximizing alpha beta] by blast
    with le show "count_empty board \<le> 9
        \<and> (\<exists>score move. minimax (Suc 9) board player maximizing alpha beta
                          = Inr (board, score, move))" by blast
  qed
  from a b c show ?thesis by blast
qed

theorem minimax_depth_bounded_witness:
  "minimax (Suc 9) new_board MarkX True MInf PInf \<noteq> Inl RecursionError
   \<and> Suc (count_empty (new_board[4 := Some MarkX])) = count_empty new_board
   \<and> count_empty new_board \<le> 9
   \<and> (\<exists>score move. minimax (Suc 9) new_board MarkX True MInf PInf = Inr (new_board, score, move))"
proof -
  have l: "length new_board = 9" by (simp add: new_board_def)
  have c: "count_empty new_board < Suc 9" by (simp add: new_board_def count_empty_def)
  have m: "4 \<in> set (available_moves new_board)"
    by (simp add: available_moves_set new_board_def)
  from minimax_depth_bounded [where board = new_board and depth = "Suc 9" and player = MarkX
      and maximizing = True and alpha = MInf and beta = PInf] l c m
  show ?thesis by blast
qed


section \<open>The search without pruning, and what the window promises\<close>

text \<open>
  The reference the pruned search is compared with: the same recursive evaluation with
  no window and no early exit, every move of a position looked at. It is total: each
  move fills an empty cell.
\<close>

function unpruned :: "board \<Rightarrow> mark \<Rightarrow> bool \<Rightarrow> int" where
  "unpruned board player maximizing =
     (if check_winner board = Inr (Some MarkX) then 1
      else if check_winner board = Inr (Some MarkO) then - 1
      else if is_board_full board then 0
      else if maximizing then
        Max (set (map (\<lambda>mv. unpruned (board[mv := Some player]) (opponent player) False)
                    (available_moves board)))
      else
        Min (set (map (\<lambda>mv. unpruned (board[mv := Some player]) (opponent player) True)
                    (available_moves board))))"
  by pat_completeness auto
termination
proof (relation "measure (\<lambda>(board, player, maximizing). count_empty board)")
  show "wf (measure (\<lambda>(board, player, maximizing). count_empty board))" by simp
next
  fix board :: board and player :: mark and maximizing :: bool and mv :: nat
  assume "mv \<in> set (available_moves board)"
  then have "mv < length board" "board ! mv = None" by (simp_all add: available_moves_set)
  from count_empty_update [OF this, of player]
  show "((board[mv := Some player], opponent player, False), board, player, maximizing)
          \<in> measure (\<lambda>(board, player, maximizing). count_empty board)"
    by simp
next
  fix board :: board and player :: mark and maximizing :: bool and mv :: nat
  assume "mv \<in> set (available_moves board)"
  then have "mv < length board" "board ! mv = None" by (simp_all add: available_moves_set)
  from count_empty_update [OF this, of player]
  show "((board[mv := Some player], opponent player, True), board, player, maximizing)
          \<in> measure (\<lambda>(board, player, maximizing). count_empty board)"
    by simp
qed

declare unpruned.simps [simp del]

text \<open>
  What a result \<open>r\<close> of a search with window \<open>(a, b)\<close> says about the value \<open>v\<close>: inside
  the window it is the value, at or below \<open>a\<close> it is an upper bound, at or above \<open>b\<close> a
  lower bound.
\<close>

definition fishburn :: "ext \<Rightarrow> ext \<Rightarrow> ext \<Rightarrow> ext \<Rightarrow> bool" where
  "fishburn a b v r \<longleftrightarrow>
     (r \<le> a \<longrightarrow> v \<le> r) \<and> (a < r \<and> r < b \<longrightarrow> r = v) \<and> (b \<le> r \<longrightarrow> r \<le> v)"

fun maxs :: "(nat \<Rightarrow> int) \<Rightarrow> nat list \<Rightarrow> ext" where
  "maxs f [] = MInf"
| "maxs f (x # xs) = max (Fin (f x)) (maxs f xs)"

fun mins :: "(nat \<Rightarrow> int) \<Rightarrow> nat list \<Rightarrow> ext" where
  "mins f [] = PInf"
| "mins f (x # xs) = min (Fin (f x)) (mins f xs)"

lemma maxs_Max: "xs \<noteq> [] \<Longrightarrow> maxs f xs = Fin (Max (set (map f xs)))"
proof (induction xs)
  case Nil
  then show ?case by simp
next
  case (Cons x xs)
  show ?case
  proof (cases "xs = []")
    case True
    then show ?thesis by simp
  next
    case False
    then have "maxs f xs = Fin (Max (f ` set xs))" using Cons.IH by simp
    moreover have "Max (insert (f x) (f ` set xs)) = max (f x) (Max (f ` set xs))"
      using False by (simp add: Max_insert)
    ultimately show ?thesis by simp
  qed
qed

lemma mins_Min: "xs \<noteq> [] \<Longrightarrow> mins f xs = Fin (Min (set (map f xs)))"
proof (induction xs)
  case Nil
  then show ?case by simp
next
  case (Cons x xs)
  show ?case
  proof (cases "xs = []")
    case True
    then show ?thesis by simp
  next
    case False
    then have "mins f xs = Fin (Min (f ` set xs))" using Cons.IH by simp
    moreover have "Min (insert (f x) (f ` set xs)) = min (f x) (Min (f ` set xs))"
      using False by (simp add: Min_insert)
    ultimately show ?thesis by simp
  qed
qed

lemma unpruned_won_X [simp]:
  "check_winner board = Inr (Some MarkX) \<Longrightarrow> unpruned board player maximizing = 1"
  by (simp add: unpruned.simps)

lemma unpruned_won_O [simp]:
  "check_winner board = Inr (Some MarkO) \<Longrightarrow> unpruned board player maximizing = - 1"
  by (simp add: unpruned.simps)

lemma unpruned_full [simp]:
  "check_winner board = Inr None \<Longrightarrow> is_board_full board \<Longrightarrow>
   unpruned board player maximizing = 0"
  by (simp add: unpruned.simps)

lemma unpruned_max:
  assumes "check_winner board = Inr None" "\<not> is_board_full board"
  shows "Fin (unpruned board player True) =
     maxs (\<lambda>mv. unpruned (board[mv := Some player]) (opponent player) False)
       (available_moves board)"
proof -
  have "available_moves board \<noteq> []" using assms(2) by (simp add: is_board_full_iff)
  then show ?thesis using assms by (subst unpruned.simps) (simp add: maxs_Max)
qed

lemma unpruned_min:
  assumes "check_winner board = Inr None" "\<not> is_board_full board"
  shows "Fin (unpruned board player False) =
     mins (\<lambda>mv. unpruned (board[mv := Some player]) (opponent player) True)
       (available_moves board)"
proof -
  have "available_moves board \<noteq> []" using assms(2) by (simp add: is_board_full_iff)
  then show ?thesis using assms by (subst unpruned.simps) (simp add: mins_Min)
qed


subsection \<open>One step of a loop and the window\<close>


lemma window_break_max:
  fixes a b :: "'a::linorder"
  assumes ab: "a < b" and me: "me \<le> a" and hi: "b \<le> r1 \<longrightarrow> r1 \<le> v1" and brk: "b \<le> max a r1"
  shows "max me r1 = r1" "b \<le> r1" "r1 \<le> max me (max v1 V)"
proof -
  from ab brk show br: "b \<le> r1" by (auto simp: le_max_iff_disj)
  with ab me show "max me r1 = r1" by (auto simp: max_def)
  from br hi show "r1 \<le> max me (max v1 V)" by (simp add: le_max_iff_disj)
qed

lemma window_cont_max:
  fixes a b :: "'a::linorder"
  assumes ab: "a < b" and me: "me \<le> a"
    and c1: "r1 \<le> a \<longrightarrow> v1 \<le> r1" and c2: "a < r1 \<and> r1 < b \<longrightarrow> r1 = v1"
    and nbrk: "\<not> b \<le> max a r1"
    and mono: "max me r1 \<le> r"
    and i1: "r \<le> max a r1 \<longrightarrow> max (max me r1) V \<le> r"
    and i2: "max a r1 < r \<and> r < b \<longrightarrow> r = max (max me r1) V"
    and i3: "b \<le> r \<longrightarrow> r \<le> max (max me r1) V"
  shows "r \<le> a \<longrightarrow> max me (max v1 V) \<le> r"
    and "a < r \<and> r < b \<longrightarrow> r = max me (max v1 V)"
    and "b \<le> r \<longrightarrow> r \<le> max me (max v1 V)"
proof -
  have r1b: "r1 < b" using nbrk by (auto simp: le_max_iff_disj not_le)
  have me_r: "me \<le> r" and r1_r: "r1 \<le> r" using mono by simp_all
  have v1a: "r1 \<le> a \<Longrightarrow> v1 \<le> r1" using c1 by simp
  have v1b: "a < r1 \<Longrightarrow> v1 = r1" using c2 r1b by simp
  have v1_le: "v1 \<le> r1" using v1a v1b by (cases "r1 \<le> a") auto
  show "r \<le> a \<longrightarrow> max me (max v1 V) \<le> r"
  proof
    assume ra: "r \<le> a"
    then have "r1 \<le> a" using r1_r by order
    then have m: "max a r1 = a" by (simp add: max_def)
    have "v1 \<le> r" using v1_le r1_r by order
    moreover have "V \<le> r" using i1 ra m by simp
    ultimately show "max me (max v1 V) \<le> r" using me_r by simp
  qed
  show "b \<le> r \<longrightarrow> r \<le> max me (max v1 V)"
  proof
    assume br: "b \<le> r"
    then have le: "r \<le> max (max me r1) V" using i3 by simp
    have "me < r" using br ab me by order
    moreover have "r1 < r" using br r1b by order
    ultimately have "r \<le> V" using le by (auto simp: le_max_iff_disj)
    then show "r \<le> max me (max v1 V)" by (simp add: le_max_iff_disj)
  qed
  show "a < r \<and> r < b \<longrightarrow> r = max me (max v1 V)"
  proof
    assume h: "a < r \<and> r < b"
    then have ar: "a < r" and rb: "r < b" by simp_all
    have me_lt: "me < r" using ar me by order
    show "r = max me (max v1 V)"
    proof (cases "max a r1 < r")
      case True
      then have eq: "r = max (max me r1) V" using i2 h by simp
      have r1_lt: "r1 < r" using True by simp
      have "max me r1 < r" using me_lt r1_lt by simp
      then have rV: "r = V" using eq by (auto simp: max_def split: if_splits)
      have "v1 < r" using v1_le r1_lt by order
      then show ?thesis using rV me_lt by (auto simp: max_def)
    next
      case False
      then have le: "r \<le> max a r1" by (simp only: not_less)
      then have "r \<le> r1" using ar by (auto simp: le_max_iff_disj)
      then have rr: "r = r1" using r1_r by order
      then have "v1 = r1" using ar v1b by simp
      moreover have "V \<le> r" using i1 le by simp
      ultimately show ?thesis using rr me_r by (auto simp: max_def)
    qed
  qed
qed

lemma window_break_min:
  fixes a b :: "'a::linorder"
  assumes ab: "a < b" and me: "b \<le> me" and lo: "r1 \<le> a \<longrightarrow> v1 \<le> r1" and brk: "min b r1 \<le> a"
  shows "min me r1 = r1" "r1 \<le> a" "min me (min v1 V) \<le> r1"
proof -
  from ab brk show ra: "r1 \<le> a" by (auto simp: min_le_iff_disj)
  with ab me show "min me r1 = r1" by (auto simp: min_def)
  from ra lo show "min me (min v1 V) \<le> r1" by (simp add: min_le_iff_disj)
qed

lemma window_cont_min:
  fixes a b :: "'a::linorder"
  assumes ab: "a < b" and me: "b \<le> me"
    and c1: "b \<le> r1 \<longrightarrow> r1 \<le> v1" and c2: "a < r1 \<and> r1 < b \<longrightarrow> r1 = v1"
    and nbrk: "\<not> min b r1 \<le> a"
    and mono: "r \<le> min me r1"
    and i1: "min b r1 \<le> r \<longrightarrow> r \<le> min (min me r1) V"
    and i2: "a < r \<and> r < min b r1 \<longrightarrow> r = min (min me r1) V"
    and i3: "r \<le> a \<longrightarrow> min (min me r1) V \<le> r"
  shows "b \<le> r \<longrightarrow> r \<le> min me (min v1 V)"
    and "a < r \<and> r < b \<longrightarrow> r = min me (min v1 V)"
    and "r \<le> a \<longrightarrow> min me (min v1 V) \<le> r"
proof -
  have r1a: "a < r1" using nbrk by (auto simp: min_le_iff_disj not_le)
  have me_r: "r \<le> me" and r1_r: "r \<le> r1" using mono by simp_all
  have v1a: "b \<le> r1 \<Longrightarrow> r1 \<le> v1" using c1 by simp
  have v1b: "r1 < b \<Longrightarrow> v1 = r1" using c2 r1a by simp
  have v1_ge: "r1 \<le> v1" using v1a v1b by (cases "b \<le> r1") auto
  show "b \<le> r \<longrightarrow> r \<le> min me (min v1 V)"
  proof
    assume rb: "b \<le> r"
    then have "b \<le> r1" using r1_r by order
    then have m: "min b r1 = b" by (simp add: min_def)
    have "r \<le> v1" using v1_ge r1_r by order
    moreover have "r \<le> V" using i1 rb m by simp
    ultimately show "r \<le> min me (min v1 V)" using me_r by simp
  qed
  show "r \<le> a \<longrightarrow> min me (min v1 V) \<le> r"
  proof
    assume ra: "r \<le> a"
    then have le: "min (min me r1) V \<le> r" using i3 by simp
    have "r < me" using ra ab me by order
    moreover have "r < r1" using ra r1a by order
    ultimately have "V \<le> r" using le by (auto simp: min_le_iff_disj)
    then show "min me (min v1 V) \<le> r" by (simp add: min_le_iff_disj)
  qed
  show "a < r \<and> r < b \<longrightarrow> r = min me (min v1 V)"
  proof
    assume h: "a < r \<and> r < b"
    then have ar: "a < r" and rb: "r < b" by simp_all
    have me_gt: "r < me" using rb me by order
    show "r = min me (min v1 V)"
    proof (cases "r < min b r1")
      case True
      then have eq: "r = min (min me r1) V" using i2 ar by simp
      have r1_gt: "r < r1" using True by simp
      have "r < min me r1" using me_gt r1_gt by simp
      then have rV: "r = V" using eq by (auto simp: min_def split: if_splits)
      have "r < v1" using v1_ge r1_gt by order
      then show ?thesis using rV me_gt by (auto simp: min_def)
    next
      case False
      then have le: "min b r1 \<le> r" by (simp only: not_less)
      then have "r1 \<le> r" using rb by (auto simp: min_le_iff_disj)
      then have rr: "r = r1" using r1_r by order
      then have "v1 = r1" using rb v1b by simp
      moreover have "r \<le> V" using i1 le by simp
      ultimately show ?thesis using rr me_r by (auto simp: min_def)
    qed
  qed
qed


subsection \<open>The loops keep the promise of the window\<close>

lemma fishburn_refl: "fishburn a b v v"
  by (simp add: fishburn_def)

lemma max_loop_fishburn:
  assumes cells: "\<forall>mv\<in>set mvs. mv < length board \<and> board ! mv = None"
    and callee: "\<forall>mv\<in>set mvs. \<forall>a b. a < b \<longrightarrow> (\<exists>s m.
        search (board[mv := Some player]) (opponent player) False a b
          = Inr (board[mv := Some player], s, m)
        \<and> fishburn a b (Fin (cv mv)) (Fin s))"
    and ab: "alpha < beta" and me: "max_eval \<le> alpha"
  shows "\<exists>me' bm'.
      max_loop search board player alpha beta max_eval best_move mvs = Inr (board, me', bm')
      \<and> fishburn alpha beta (max max_eval (maxs cv mvs)) me'
      \<and> max_eval \<le> me'
      \<and> (me' = max_eval \<longrightarrow> bm' = best_move)
      \<and> (alpha < me' \<and> me' < beta \<longrightarrow>
           (\<exists>j\<in>set mvs. bm' = Some j \<and> Fin (cv j) = me'
               \<and> (\<forall>i\<in>set (takeWhile (\<lambda>i. i \<noteq> j) mvs). Fin (cv i) < me')))"
  using cells callee ab me
proof (induction mvs arbitrary: alpha max_eval best_move)
  case Nil
  have "\<not> (alpha < max_eval)" using Nil.prems(4) by (simp add: not_less)
  then show ?case by (simp add: fishburn_refl)
next
  case (Cons mv mvs)
  note ab = Cons.prems(3) and me = Cons.prems(4)
  from Cons.prems(1) have rng: "mv < length board" and cell: "board ! mv = None" by simp_all
  from Cons.prems(2) ab obtain s m where
    call: "search (board[mv := Some player]) (opponent player) False alpha beta
             = Inr (board[mv := Some player], s, m)"
    and fb: "fishburn alpha beta (Fin (cv mv)) (Fin s)"
    by (meson list.set_intros(1))
  define r1 where "r1 = Fin s"
  define v1 where "v1 = Fin (cv mv)"
  define V where "V = maxs cv mvs"
  have c1: "r1 \<le> alpha \<longrightarrow> v1 \<le> r1" and c2: "alpha < r1 \<and> r1 < beta \<longrightarrow> r1 = v1"
    and c3: "beta \<le> r1 \<longrightarrow> r1 \<le> v1"
    using fb unfolding fishburn_def r1_def v1_def by simp_all
  define me1 where "me1 = (if max_eval < r1 then r1 else max_eval)"
  define bm1 where "bm1 = (if max_eval < r1 then Some mv else best_move)"
  have me1_max: "me1 = max max_eval r1" by (auto simp: me1_def max_def)
  have step: "max_loop search board player alpha beta max_eval best_move (mv # mvs) =
     (if beta \<le> max alpha r1 then Inr (board, me1, bm1)
      else max_loop search board player (max alpha r1) beta me1 bm1 mvs)"
    unfolding me1_def bm1_def r1_def using rng cell call by (rule max_loop_step)
  have target: "max max_eval (maxs cv (mv # mvs)) = max max_eval (max v1 V)"
    by (simp add: v1_def V_def)
  have me1_ge: "max_eval \<le> me1" by (simp add: me1_max)
  have me1_eq: "me1 = max_eval \<Longrightarrow> bm1 = best_move" by (auto simp: me1_def bm1_def)
  show ?case
  proof (cases "beta \<le> max alpha r1")
    case True
    have e: "max max_eval r1 = r1" and br: "beta \<le> r1" and le: "r1 \<le> max max_eval (max v1 V)"
      using window_break_max [OF ab me c3 True] by blast+
    have res: "max_loop search board player alpha beta max_eval best_move (mv # mvs)
        = Inr (board, r1, bm1)"
      using step True me1_max e by simp
    have ar: "alpha < r1" using ab br by order
    have nra: "\<not> r1 \<le> alpha" using ar by (simp add: not_le)
    have nrb: "\<not> r1 < beta" using br by (simp add: not_less)
    have f: "fishburn alpha beta (max max_eval (max v1 V)) r1"
      unfolding fishburn_def using nra nrb le by simp
    have g: "max_eval \<le> r1" using me ar by order
    have ne: "r1 \<noteq> max_eval" using me ar by order
    have nw: "\<not> (alpha < r1 \<and> r1 < beta)" using br by (simp add: not_less)
    show ?thesis unfolding target using res f g ne nw by blast
  next
    case False
    then have ab1: "max alpha r1 < beta" by (simp only: not_le)
    have me1_le: "me1 \<le> max alpha r1"
      unfolding me1_max using me by (auto simp: le_max_iff_disj)
    have cells': "\<forall>mv\<in>set mvs. mv < length board \<and> board ! mv = None"
      using Cons.prems(1) by simp
    have callee': "\<forall>mv\<in>set mvs. \<forall>a b. a < b \<longrightarrow> (\<exists>s m.
        search (board[mv := Some player]) (opponent player) False a b
          = Inr (board[mv := Some player], s, m)
        \<and> fishburn a b (Fin (cv mv)) (Fin s))"
      using Cons.prems(2) by simp
    from Cons.IH [OF cells' callee' ab1 me1_le, of bm1] obtain me' bm' where
      res: "max_loop search board player (max alpha r1) beta me1 bm1 mvs = Inr (board, me', bm')"
      and fb': "fishburn (max alpha r1) beta (max me1 V) me'"
      and ge: "me1 \<le> me'"
      and eq: "me' = me1 \<longrightarrow> bm' = bm1"
      and opt: "max alpha r1 < me' \<and> me' < beta \<longrightarrow>
           (\<exists>j\<in>set mvs. bm' = Some j \<and> Fin (cv j) = me'
               \<and> (\<forall>i\<in>set (takeWhile (\<lambda>i. i \<noteq> j) mvs). Fin (cv i) < me'))"
      unfolding V_def by blast
    have r: "max_loop search board player alpha beta max_eval best_move (mv # mvs)
        = Inr (board, me', bm')"
      using step False res by simp
    have mono: "max max_eval r1 \<le> me'" using ge me1_max by simp
    have i1: "me' \<le> max alpha r1 \<longrightarrow> max (max max_eval r1) V \<le> me'"
      and i2: "max alpha r1 < me' \<and> me' < beta \<longrightarrow> me' = max (max max_eval r1) V"
      and i3: "beta \<le> me' \<longrightarrow> me' \<le> max (max max_eval r1) V"
      using fb' unfolding fishburn_def me1_max by simp_all
    note w = window_cont_max [OF ab me c1 c2 False mono i1 i2 i3]
    have f: "fishburn alpha beta (max max_eval (max v1 V)) me'"
      unfolding fishburn_def using w by blast
    have g: "max_eval \<le> me'" using me1_ge ge by order
    have h: "me' = max_eval \<longrightarrow> bm' = best_move"
    proof
      assume a: "me' = max_eval"
      then have "me1 = max_eval" using me1_ge ge by order
      then show "bm' = best_move" using a eq me1_eq by simp
    qed
    have r1b: "r1 < beta" using ab1 by simp
    have v1_le: "v1 \<le> r1" using c1 c2 r1b by (cases "r1 \<le> alpha") auto
    have o: "alpha < me' \<and> me' < beta \<longrightarrow>
           (\<exists>j\<in>set (mv # mvs). bm' = Some j \<and> Fin (cv j) = me'
               \<and> (\<forall>i\<in>set (takeWhile (\<lambda>i. i \<noteq> j) (mv # mvs)). Fin (cv i) < me'))"
    proof
      assume win: "alpha < me' \<and> me' < beta"
      then have am: "alpha < me'" and mb: "me' < beta" by simp_all
      show "\<exists>j\<in>set (mv # mvs). bm' = Some j \<and> Fin (cv j) = me'
               \<and> (\<forall>i\<in>set (takeWhile (\<lambda>i. i \<noteq> j) (mv # mvs)). Fin (cv i) < me')"
      proof (cases "max alpha r1 < me'")
        case True
        with opt mb obtain j where j: "j \<in> set mvs" "bm' = Some j" "Fin (cv j) = me'"
          "\<forall>i\<in>set (takeWhile (\<lambda>i. i \<noteq> j) mvs). Fin (cv i) < me'"
          by blast
        have "r1 < me'" using True by simp
        then have "Fin (cv mv) < me'" using v1_le unfolding v1_def by order
        then have "\<forall>i\<in>set (takeWhile (\<lambda>i. i \<noteq> j) (mv # mvs)). Fin (cv i) < me'"
          using j(4) by auto
        then show ?thesis using j(1,2,3) by auto
      next
        case False
        then have "me' \<le> max alpha r1" by (simp only: not_less)
        then have "me' \<le> r1" using am by (auto simp: le_max_iff_disj)
        moreover have "r1 \<le> me'" using mono by simp
        ultimately have e: "me' = r1" by order
        then have ar: "alpha < r1" using am by simp
        then have v: "v1 = r1" using c2 r1b by simp
        have "max_eval < r1" using me ar by order
        then have "me1 = r1" "bm1 = Some mv" by (simp_all add: me1_def bm1_def)
        then have "bm' = Some mv" using e eq by simp
        moreover have "Fin (cv mv) = me'" using v e by (simp add: v1_def)
        ultimately show ?thesis by simp
      qed
    qed
    show ?thesis unfolding target using r f g h o by blast
  qed
qed

lemma min_loop_fishburn:
  assumes cells: "\<forall>mv\<in>set mvs. mv < length board \<and> board ! mv = None"
    and callee: "\<forall>mv\<in>set mvs. \<forall>a b. a < b \<longrightarrow> (\<exists>s m.
        search (board[mv := Some player]) (opponent player) True a b
          = Inr (board[mv := Some player], s, m)
        \<and> fishburn a b (Fin (cv mv)) (Fin s))"
    and ab: "alpha < beta" and me: "beta \<le> min_eval"
  shows "\<exists>me' bm'.
      min_loop search board player alpha beta min_eval best_move mvs = Inr (board, me', bm')
      \<and> fishburn alpha beta (min min_eval (mins cv mvs)) me'
      \<and> me' \<le> min_eval
      \<and> (me' = min_eval \<longrightarrow> bm' = best_move)
      \<and> (alpha < me' \<and> me' < beta \<longrightarrow>
           (\<exists>j\<in>set mvs. bm' = Some j \<and> Fin (cv j) = me'
               \<and> (\<forall>i\<in>set (takeWhile (\<lambda>i. i \<noteq> j) mvs). me' < Fin (cv i))))"
  using cells callee ab me
proof (induction mvs arbitrary: beta min_eval best_move)
  case Nil
  have "\<not> (min_eval < beta)" using Nil.prems(4) by (simp add: not_less)
  then show ?case by (simp add: fishburn_refl)
next
  case (Cons mv mvs)
  note ab = Cons.prems(3) and me = Cons.prems(4)
  from Cons.prems(1) have rng: "mv < length board" and cell: "board ! mv = None" by simp_all
  from Cons.prems(2) ab obtain s m where
    call: "search (board[mv := Some player]) (opponent player) True alpha beta
             = Inr (board[mv := Some player], s, m)"
    and fb: "fishburn alpha beta (Fin (cv mv)) (Fin s)"
    by (meson list.set_intros(1))
  define r1 where "r1 = Fin s"
  define v1 where "v1 = Fin (cv mv)"
  define V where "V = mins cv mvs"
  have c1: "r1 \<le> alpha \<longrightarrow> v1 \<le> r1" and c2: "alpha < r1 \<and> r1 < beta \<longrightarrow> r1 = v1"
    and c3: "beta \<le> r1 \<longrightarrow> r1 \<le> v1"
    using fb unfolding fishburn_def r1_def v1_def by simp_all
  define me1 where "me1 = (if r1 < min_eval then r1 else min_eval)"
  define bm1 where "bm1 = (if r1 < min_eval then Some mv else best_move)"
  have me1_min: "me1 = min min_eval r1" by (auto simp: me1_def min_def)
  have step: "min_loop search board player alpha beta min_eval best_move (mv # mvs) =
     (if min beta r1 \<le> alpha then Inr (board, me1, bm1)
      else min_loop search board player alpha (min beta r1) me1 bm1 mvs)"
    unfolding me1_def bm1_def r1_def using rng cell call by (rule min_loop_step)
  have target: "min min_eval (mins cv (mv # mvs)) = min min_eval (min v1 V)"
    by (simp add: v1_def V_def)
  have me1_le: "me1 \<le> min_eval" by (simp add: me1_min)
  have me1_eq: "me1 = min_eval \<Longrightarrow> bm1 = best_move" by (auto simp: me1_def bm1_def)
  show ?case
  proof (cases "min beta r1 \<le> alpha")
    case True
    have e: "min min_eval r1 = r1" and ra: "r1 \<le> alpha" and le: "min min_eval (min v1 V) \<le> r1"
      using window_break_min [OF ab me c1 True] by blast+
    have res: "min_loop search board player alpha beta min_eval best_move (mv # mvs)
        = Inr (board, r1, bm1)"
      using step True me1_min e by simp
    have rb: "r1 < beta" using ab ra by order
    have nra: "\<not> alpha < r1" using ra by (simp add: not_less)
    have nrb: "\<not> beta \<le> r1" using rb by (simp add: not_le)
    have f: "fishburn alpha beta (min min_eval (min v1 V)) r1"
      unfolding fishburn_def using nra nrb le by simp
    have g: "r1 \<le> min_eval" using me rb by order
    have ne: "r1 \<noteq> min_eval" using me rb by order
    have nw: "\<not> (alpha < r1 \<and> r1 < beta)" using nra by simp
    show ?thesis unfolding target using res f g ne nw by blast
  next
    case False
    then have ab1: "alpha < min beta r1" by (simp only: not_le)
    have me1_ge: "min beta r1 \<le> me1"
      unfolding me1_min using me by (auto simp: min_le_iff_disj)
    have cells': "\<forall>mv\<in>set mvs. mv < length board \<and> board ! mv = None"
      using Cons.prems(1) by simp
    have callee': "\<forall>mv\<in>set mvs. \<forall>a b. a < b \<longrightarrow> (\<exists>s m.
        search (board[mv := Some player]) (opponent player) True a b
          = Inr (board[mv := Some player], s, m)
        \<and> fishburn a b (Fin (cv mv)) (Fin s))"
      using Cons.prems(2) by simp
    from Cons.IH [OF cells' callee' ab1 me1_ge, of bm1] obtain me' bm' where
      res: "min_loop search board player alpha (min beta r1) me1 bm1 mvs = Inr (board, me', bm')"
      and fb': "fishburn alpha (min beta r1) (min me1 V) me'"
      and ge: "me' \<le> me1"
      and eq: "me' = me1 \<longrightarrow> bm' = bm1"
      and opt: "alpha < me' \<and> me' < min beta r1 \<longrightarrow>
           (\<exists>j\<in>set mvs. bm' = Some j \<and> Fin (cv j) = me'
               \<and> (\<forall>i\<in>set (takeWhile (\<lambda>i. i \<noteq> j) mvs). me' < Fin (cv i)))"
      unfolding V_def by blast
    have r: "min_loop search board player alpha beta min_eval best_move (mv # mvs)
        = Inr (board, me', bm')"
      using step False res by simp
    have mono: "me' \<le> min min_eval r1" using ge me1_min by simp
    have i1: "min beta r1 \<le> me' \<longrightarrow> me' \<le> min (min min_eval r1) V"
      and i2: "alpha < me' \<and> me' < min beta r1 \<longrightarrow> me' = min (min min_eval r1) V"
      and i3: "me' \<le> alpha \<longrightarrow> min (min min_eval r1) V \<le> me'"
      using fb' unfolding fishburn_def me1_min by simp_all
    note w = window_cont_min [OF ab me c3 c2 False mono i1 i2 i3]
    have f: "fishburn alpha beta (min min_eval (min v1 V)) me'"
      unfolding fishburn_def using w by blast
    have g: "me' \<le> min_eval" using me1_le ge by order
    have h: "me' = min_eval \<longrightarrow> bm' = best_move"
    proof
      assume a: "me' = min_eval"
      then have "me1 = min_eval" using me1_le ge by order
      then show "bm' = best_move" using a eq me1_eq by simp
    qed
    have r1a: "alpha < r1" using ab1 by simp
    have v1_ge: "r1 \<le> v1" using c3 c2 r1a by (cases "beta \<le> r1") auto
    have o: "alpha < me' \<and> me' < beta \<longrightarrow>
           (\<exists>j\<in>set (mv # mvs). bm' = Some j \<and> Fin (cv j) = me'
               \<and> (\<forall>i\<in>set (takeWhile (\<lambda>i. i \<noteq> j) (mv # mvs)). me' < Fin (cv i)))"
    proof
      assume win: "alpha < me' \<and> me' < beta"
      then have am: "alpha < me'" and mb: "me' < beta" by simp_all
      show "\<exists>j\<in>set (mv # mvs). bm' = Some j \<and> Fin (cv j) = me'
               \<and> (\<forall>i\<in>set (takeWhile (\<lambda>i. i \<noteq> j) (mv # mvs)). me' < Fin (cv i))"
      proof (cases "me' < min beta r1")
        case True
        with opt am obtain j where j: "j \<in> set mvs" "bm' = Some j" "Fin (cv j) = me'"
          "\<forall>i\<in>set (takeWhile (\<lambda>i. i \<noteq> j) mvs). me' < Fin (cv i)"
          by blast
        have "me' < r1" using True by simp
        then have "me' < Fin (cv mv)" using v1_ge unfolding v1_def by order
        then have "\<forall>i\<in>set (takeWhile (\<lambda>i. i \<noteq> j) (mv # mvs)). me' < Fin (cv i)"
          using j(4) by auto
        then show ?thesis using j(1,2,3) by auto
      next
        case False
        then have "min beta r1 \<le> me'" by (simp only: not_less)
        then have "r1 \<le> me'" using mb by (auto simp: min_le_iff_disj)
        moreover have "me' \<le> r1" using mono by simp
        ultimately have e: "me' = r1" by order
        then have rb': "r1 < beta" using mb by simp
        then have v: "v1 = r1" using c2 r1a by simp
        have "r1 < min_eval" using me rb' by order
        then have "me1 = r1" "bm1 = Some mv" by (simp_all add: me1_def bm1_def)
        then have "bm' = Some mv" using e eq by simp
        moreover have "Fin (cv mv) = me'" using v e by (simp add: v1_def)
        ultimately show ?thesis by simp
      qed
    qed
    show ?thesis unfolding target using r f g h o by blast
  qed
qed


subsection \<open>The pruned search against the search without pruning\<close>

lemma nonterminal_cases:
  assumes "check_winner board = Inr w"
  obtains (won_X) "w = Some MarkX" | (won_O) "w = Some MarkO"
    | (full) "w = None" "is_board_full board"
    | (open_) "w = None" "\<not> is_board_full board"
  by (cases w) (auto, metis mark.exhaust)

lemma minimax_fishburn:
  "9 \<le> length board \<Longrightarrow> count_empty board < depth \<Longrightarrow> alpha < beta \<Longrightarrow>
   \<exists>s m. minimax depth board player maximizing alpha beta = Inr (board, s, m)
     \<and> fishburn alpha beta (Fin (unpruned board player maximizing)) (Fin s)
     \<and> (check_winner board = Inr None \<and> \<not> is_board_full board
          \<and> alpha < Fin s \<and> Fin s < beta \<longrightarrow>
          (\<exists>j\<in>set (available_moves board). m = Some j
             \<and> unpruned (board[j := Some player]) (opponent player) (\<not> maximizing) = s
             \<and> (\<forall>i\<in>set (takeWhile (\<lambda>i. i \<noteq> j) (available_moves board)).
                  if maximizing
                  then unpruned (board[i := Some player]) (opponent player) False < s
                  else s < unpruned (board[i := Some player]) (opponent player) True)))"
proof (induction depth arbitrary: board player maximizing alpha beta)
  case 0
  then show ?case by simp
next
  case (Suc depth)
  note len = Suc.prems(1) and cnt = Suc.prems(2) and ab = Suc.prems(3)
  from len obtain w where w: "check_winner board = Inr w"
    using check_winner_total by blast
  from minimax_total [OF len cnt] obtain s m where
    r: "minimax (Suc depth) board player maximizing alpha beta = Inr (board, s, m)"
    by blast
  from w show ?case
  proof (cases rule: nonterminal_cases)
    case won_X
    then show ?thesis using w by (simp add: fishburn_refl)
  next
    case won_O
    then show ?thesis using w by (simp add: fishburn_refl)
  next
    case full
    then show ?thesis using w by (simp add: fishburn_refl)
  next
    case open_
    note wn = open_(1) and nf = open_(2)
    have cells: "\<forall>mv\<in>set (available_moves board). mv < length board \<and> board ! mv = None"
      by (simp add: available_moves_set)
    have callee: "\<forall>mv\<in>set (available_moves board). \<forall>a b. a < b \<longrightarrow> (\<exists>s m.
        minimax depth (board[mv := Some player]) (opponent player) mx a b
          = Inr (board[mv := Some player], s, m)
        \<and> fishburn a b (Fin (unpruned (board[mv := Some player]) (opponent player) mx)) (Fin s))"
      for mx
    proof (intro ballI allI impI)
      fix mv a b
      assume mv: "mv \<in> set (available_moves board)" and "a < (b::ext)"
      with Suc.IH [OF child_board(1,2) [OF len cnt mv], of a b player "opponent player" mx]
      show "\<exists>s m. minimax depth (board[mv := Some player]) (opponent player) mx a b
          = Inr (board[mv := Some player], s, m)
        \<and> fishburn a b (Fin (unpruned (board[mv := Some player]) (opponent player) mx)) (Fin s)"
        by blast
    qed
    show ?thesis
    proof (cases maximizing)
      case True
      define cv where "cv = (\<lambda>mv. unpruned (board[mv := Some player]) (opponent player) False)"
      have bound: "MInf \<le> alpha" by simp
      have callee_cv: "\<forall>mv\<in>set (available_moves board). \<forall>a b. a < b \<longrightarrow> (\<exists>s m.
          minimax depth (board[mv := Some player]) (opponent player) False a b
            = Inr (board[mv := Some player], s, m)
          \<and> fishburn a b (Fin (cv mv)) (Fin s))"
        using callee [of False] by (simp add: cv_def)
      from max_loop_fishburn [of "available_moves board" board "minimax depth" player cv
          alpha beta MInf None, OF cells callee_cv ab bound]
      obtain me' bm' where
        loop: "max_loop (minimax depth) board player alpha beta MInf None (available_moves board)
                 = Inr (board, me', bm')"
        and fb: "fishburn alpha beta (max MInf (maxs cv (available_moves board))) me'"
        and opt: "alpha < me' \<and> me' < beta \<longrightarrow>
           (\<exists>j\<in>set (available_moves board). bm' = Some j \<and> Fin (cv j) = me'
               \<and> (\<forall>i\<in>set (takeWhile (\<lambda>i. i \<noteq> j) (available_moves board)). Fin (cv i) < me'))"
        by blast
      from r loop w wn nf True have me': "me' = Fin s" and m: "m = bm'"
        by (cases me'; simp)+
      have v: "max MInf (maxs cv (available_moves board)) = Fin (unpruned board player True)"
        using unpruned_max [of board player] w wn nf by (simp add: cv_def)
      have f: "fishburn alpha beta (Fin (unpruned board player maximizing)) (Fin s)"
        using fb v me' True by simp
      have o: "alpha < Fin s \<and> Fin s < beta \<longrightarrow>
          (\<exists>j\<in>set (available_moves board). m = Some j
             \<and> unpruned (board[j := Some player]) (opponent player) (\<not> maximizing) = s
             \<and> (\<forall>i\<in>set (takeWhile (\<lambda>i. i \<noteq> j) (available_moves board)).
                  if maximizing
                  then unpruned (board[i := Some player]) (opponent player) False < s
                  else s < unpruned (board[i := Some player]) (opponent player) True))"
        using opt unfolding me' m cv_def using True by auto
      show ?thesis using r f o by blast
    next
      case False
      define cv where "cv = (\<lambda>mv. unpruned (board[mv := Some player]) (opponent player) True)"
      have bound: "beta \<le> PInf" by simp
      have callee_cv: "\<forall>mv\<in>set (available_moves board). \<forall>a b. a < b \<longrightarrow> (\<exists>s m.
          minimax depth (board[mv := Some player]) (opponent player) True a b
            = Inr (board[mv := Some player], s, m)
          \<and> fishburn a b (Fin (cv mv)) (Fin s))"
        using callee [of True] by (simp add: cv_def)
      from min_loop_fishburn [of "available_moves board" board "minimax depth" player cv
          alpha beta PInf None, OF cells callee_cv ab bound]
      obtain me' bm' where
        loop: "min_loop (minimax depth) board player alpha beta PInf None (available_moves board)
                 = Inr (board, me', bm')"
        and fb: "fishburn alpha beta (min PInf (mins cv (available_moves board))) me'"
        and opt: "alpha < me' \<and> me' < beta \<longrightarrow>
           (\<exists>j\<in>set (available_moves board). bm' = Some j \<and> Fin (cv j) = me'
               \<and> (\<forall>i\<in>set (takeWhile (\<lambda>i. i \<noteq> j) (available_moves board)). me' < Fin (cv i)))"
        by blast
      from r loop w wn nf False have me': "me' = Fin s" and m: "m = bm'"
        by (cases me'; simp)+
      have v: "min PInf (mins cv (available_moves board)) = Fin (unpruned board player False)"
        using unpruned_min [of board player] w wn nf by (simp add: cv_def)
      have f: "fishburn alpha beta (Fin (unpruned board player maximizing)) (Fin s)"
        using fb v me' False by simp
      have o: "alpha < Fin s \<and> Fin s < beta \<longrightarrow>
          (\<exists>j\<in>set (available_moves board). m = Some j
             \<and> unpruned (board[j := Some player]) (opponent player) (\<not> maximizing) = s
             \<and> (\<forall>i\<in>set (takeWhile (\<lambda>i. i \<noteq> j) (available_moves board)).
                  if maximizing
                  then unpruned (board[i := Some player]) (opponent player) False < s
                  else s < unpruned (board[i := Some player]) (opponent player) True))"
        using opt unfolding me' m cv_def using False by auto
      show ?thesis using r f o by blast
    qed
  qed
qed

section \<open>The scores a loop sees\<close>

text \<open>
  The moves a loop tries, each with the score its search returns, in the order they are
  tried: the window of each search is the one the loop has reached by then, and the list
  ends with the move at which the loop is left.
\<close>

fun seen_max :: "search \<Rightarrow> board \<Rightarrow> mark \<Rightarrow> ext \<Rightarrow> ext \<Rightarrow> nat list \<Rightarrow> (nat \<times> int) list" where
  "seen_max search board player alpha beta [] = []"
| "seen_max search board player alpha beta (mv # mvs) =
     (case search (board[mv := Some player]) (opponent player) False alpha beta of
        Inl e \<Rightarrow> []
      | Inr (board', eval_score, _) \<Rightarrow>
          (mv, eval_score) #
            (if beta \<le> max alpha (Fin eval_score) then []
             else seen_max search board player (max alpha (Fin eval_score)) beta mvs))"

fun seen_min :: "search \<Rightarrow> board \<Rightarrow> mark \<Rightarrow> ext \<Rightarrow> ext \<Rightarrow> nat list \<Rightarrow> (nat \<times> int) list" where
  "seen_min search board player alpha beta [] = []"
| "seen_min search board player alpha beta (mv # mvs) =
     (case search (board[mv := Some player]) (opponent player) True alpha beta of
        Inl e \<Rightarrow> []
      | Inr (board', eval_score, _) \<Rightarrow>
          (mv, eval_score) #
            (if min beta (Fin eval_score) \<le> alpha then []
             else seen_min search board player alpha (min beta (Fin eval_score)) mvs))"

lemma seen_max_prefix:
  "map fst (seen_max search board player alpha beta mvs)
     = take (length (seen_max search board player alpha beta mvs)) mvs"
  by (induction mvs arbitrary: alpha) (auto split: sum.splits)

lemma seen_min_prefix:
  "map fst (seen_min search board player alpha beta mvs)
     = take (length (seen_min search board player alpha beta mvs)) mvs"
  by (induction mvs arbitrary: beta) (auto split: sum.splits)

lemma max_loop_seen:
  assumes cells: "\<forall>mv\<in>set mvs. mv < length board \<and> board ! mv = None"
    and callee: "\<forall>mv\<in>set mvs. \<forall>a b. \<exists>s m.
        search (board[mv := Some player]) (opponent player) False a b
          = Inr (board[mv := Some player], s, m)"
  shows "\<exists>me' bm'.
      max_loop search board player alpha beta max_eval best_move mvs = Inr (board, me', bm')
      \<and> max_eval \<le> me'
      \<and> (me' = max_eval \<longrightarrow> bm' = best_move)
      \<and> (\<forall>(i, r)\<in>set (seen_max search board player alpha beta mvs). Fin r \<le> me')
      \<and> (max_eval < me' \<longrightarrow>
           (\<exists>j s. bm' = Some j \<and> me' = Fin s
              \<and> (j, s) \<in> set (seen_max search board player alpha beta mvs)
              \<and> (\<forall>(i, r)\<in>set (takeWhile (\<lambda>p. fst p \<noteq> j)
                                    (seen_max search board player alpha beta mvs)).
                    Fin r < me')))"
  using cells callee
proof (induction mvs arbitrary: alpha max_eval best_move)
  case Nil
  then show ?case by simp
next
  case (Cons mv mvs)
  from Cons.prems(1) have rng: "mv < length board" and cell: "board ! mv = None" by simp_all
  from Cons.prems(2) obtain s m where
    call: "search (board[mv := Some player]) (opponent player) False alpha beta
             = Inr (board[mv := Some player], s, m)"
    by (meson list.set_intros(1))
  define me1 where "me1 = (if max_eval < Fin s then Fin s else max_eval)"
  define bm1 where "bm1 = (if max_eval < Fin s then Some mv else best_move)"
  define rest where "rest = (if beta \<le> max alpha (Fin s) then []
                             else seen_max search board player (max alpha (Fin s)) beta mvs)"
  have step: "max_loop search board player alpha beta max_eval best_move (mv # mvs) =
     (if beta \<le> max alpha (Fin s) then Inr (board, me1, bm1)
      else max_loop search board player (max alpha (Fin s)) beta me1 bm1 mvs)"
    unfolding me1_def bm1_def using rng cell call by (rule max_loop_step)
  have tr: "seen_max search board player alpha beta (mv # mvs) = (mv, s) # rest"
    using call by (simp add: rest_def)
  have me1_ge: "max_eval \<le> me1" by (simp add: me1_def less_imp_le)
  have s_le: "Fin s \<le> me1" by (simp add: me1_def not_less)
  have me1_gt: "max_eval < me1 \<Longrightarrow> bm1 = Some mv \<and> me1 = Fin s"
    by (auto simp: me1_def bm1_def split: if_splits)
  show ?case
  proof (cases "beta \<le> max alpha (Fin s)")
    case True
    then have r: "max_loop search board player alpha beta max_eval best_move (mv # mvs)
        = Inr (board, me1, bm1)"
      using step by simp
    have rest: "rest = []" using True by (simp add: rest_def)
    have e: "me1 = max_eval \<longrightarrow> bm1 = best_move"
      by (auto simp: me1_def bm1_def)
    show ?thesis unfolding tr rest using r s_le me1_gt me1_ge e by auto
  next
    case False
    then have rest: "rest = seen_max search board player (max alpha (Fin s)) beta mvs"
      by (simp add: rest_def)
    have cells': "\<forall>mv\<in>set mvs. mv < length board \<and> board ! mv = None"
      using Cons.prems(1) by simp
    have callee': "\<forall>mv\<in>set mvs. \<forall>a b. \<exists>s m.
        search (board[mv := Some player]) (opponent player) False a b
          = Inr (board[mv := Some player], s, m)"
      using Cons.prems(2) by simp
    have "\<exists>me' bm'.
      max_loop search board player (max alpha (Fin s)) beta me1 bm1 mvs = Inr (board, me', bm')
      \<and> me1 \<le> me'
      \<and> (me' = me1 \<longrightarrow> bm' = bm1)
      \<and> (\<forall>(i, r)\<in>set (seen_max search board player (max alpha (Fin s)) beta mvs). Fin r \<le> me')
      \<and> (me1 < me' \<longrightarrow>
           (\<exists>j s'. bm' = Some j \<and> me' = Fin s'
              \<and> (j, s') \<in> set (seen_max search board player (max alpha (Fin s)) beta mvs)
              \<and> (\<forall>(i, r)\<in>set (takeWhile (\<lambda>p. fst p \<noteq> j)
                                    (seen_max search board player (max alpha (Fin s)) beta mvs)).
                    Fin r < me')))"
      using cells' callee' by (rule Cons.IH)
    then obtain me0 bm0 where
      res0: "max_loop search board player (max alpha (Fin s)) beta me1 bm1 mvs = Inr (board, me0, bm0)"
      and ge: "me1 \<le> me0" and eq: "me0 = me1 \<longrightarrow> bm0 = bm1"
      and all: "\<forall>(i, r)\<in>set rest. Fin r \<le> me0"
      and first: "me1 < me0 \<longrightarrow>
           (\<exists>j s. bm0 = Some j \<and> me0 = Fin s \<and> (j, s) \<in> set rest
              \<and> (\<forall>(i, r)\<in>set (takeWhile (\<lambda>p. fst p \<noteq> j) rest). Fin r < me0))"
      unfolding rest by blast
    have r: "max_loop search board player alpha beta max_eval best_move (mv # mvs)
        = Inr (board, me0, bm0)"
      using step False res0 by simp
    have a: "\<forall>(i, r)\<in>set ((mv, s) # rest). Fin r \<le> me0"
    proof -
      have "Fin s \<le> me0" using s_le ge by order
      then show ?thesis using all by simp
    qed
    have f: "max_eval < me0 \<longrightarrow>
           (\<exists>j s'. bm0 = Some j \<and> me0 = Fin s' \<and> (j, s') \<in> set ((mv, s) # rest)
              \<and> (\<forall>(i, r)\<in>set (takeWhile (\<lambda>p. fst p \<noteq> j) ((mv, s) # rest)). Fin r < me0))"
    proof
      assume h: "max_eval < me0"
      show "\<exists>j s'. bm0 = Some j \<and> me0 = Fin s' \<and> (j, s') \<in> set ((mv, s) # rest)
              \<and> (\<forall>(i, r)\<in>set (takeWhile (\<lambda>p. fst p \<noteq> j) ((mv, s) # rest)). Fin r < me0)"
      proof (cases "me1 < me0")
        case True
        with first obtain j s' where j: "bm0 = Some j" "me0 = Fin s'" "(j, s') \<in> set rest"
          "\<forall>(i, r)\<in>set (takeWhile (\<lambda>p. fst p \<noteq> j) rest). Fin r < me0"
          by blast
        have "Fin s < me0" using s_le True by order
        then have "\<forall>(i, r)\<in>set (takeWhile (\<lambda>p. fst p \<noteq> j) ((mv, s) # rest)). Fin r < me0"
          using j(4) by auto
        then show ?thesis using j(1,2,3) by auto
      next
        case False
        then have e: "me0 = me1" using ge by order
        then have "max_eval < me1" using h by simp
        then have "bm1 = Some mv" "me1 = Fin s" using me1_gt by simp_all
        then have "bm0 = Some mv" "me0 = Fin s" using e eq by simp_all
        then show ?thesis by auto
      qed
    qed
    have g: "max_eval \<le> me0" using me1_ge ge by order
    have e: "me0 = max_eval \<longrightarrow> bm0 = best_move"
    proof
      assume h: "me0 = max_eval"
      then have "me1 = max_eval" using me1_ge ge by order
      then have "bm1 = best_move" "me0 = me1" using h by (auto simp: me1_def bm1_def split: if_splits)
      then show "bm0 = best_move" using eq by simp
    qed
    show ?thesis unfolding tr using r a f g e by blast
  qed
qed

lemma min_loop_seen:
  assumes cells: "\<forall>mv\<in>set mvs. mv < length board \<and> board ! mv = None"
    and callee: "\<forall>mv\<in>set mvs. \<forall>a b. \<exists>s m.
        search (board[mv := Some player]) (opponent player) True a b
          = Inr (board[mv := Some player], s, m)"
  shows "\<exists>me' bm'.
      min_loop search board player alpha beta min_eval best_move mvs = Inr (board, me', bm')
      \<and> me' \<le> min_eval
      \<and> (me' = min_eval \<longrightarrow> bm' = best_move)
      \<and> (\<forall>(i, r)\<in>set (seen_min search board player alpha beta mvs). me' \<le> Fin r)
      \<and> (me' < min_eval \<longrightarrow>
           (\<exists>j s. bm' = Some j \<and> me' = Fin s
              \<and> (j, s) \<in> set (seen_min search board player alpha beta mvs)
              \<and> (\<forall>(i, r)\<in>set (takeWhile (\<lambda>p. fst p \<noteq> j)
                                    (seen_min search board player alpha beta mvs)).
                    me' < Fin r)))"
  using cells callee
proof (induction mvs arbitrary: beta min_eval best_move)
  case Nil
  then show ?case by simp
next
  case (Cons mv mvs)
  from Cons.prems(1) have rng: "mv < length board" and cell: "board ! mv = None" by simp_all
  from Cons.prems(2) obtain s m where
    call: "search (board[mv := Some player]) (opponent player) True alpha beta
             = Inr (board[mv := Some player], s, m)"
    by (meson list.set_intros(1))
  define me1 where "me1 = (if Fin s < min_eval then Fin s else min_eval)"
  define bm1 where "bm1 = (if Fin s < min_eval then Some mv else best_move)"
  define rest where "rest = (if min beta (Fin s) \<le> alpha then []
                             else seen_min search board player alpha (min beta (Fin s)) mvs)"
  have step: "min_loop search board player alpha beta min_eval best_move (mv # mvs) =
     (if min beta (Fin s) \<le> alpha then Inr (board, me1, bm1)
      else min_loop search board player alpha (min beta (Fin s)) me1 bm1 mvs)"
    unfolding me1_def bm1_def using rng cell call by (rule min_loop_step)
  have tr: "seen_min search board player alpha beta (mv # mvs) = (mv, s) # rest"
    using call by (simp add: rest_def)
  have me1_ge: "me1 \<le> min_eval" by (simp add: me1_def less_imp_le)
  have s_le: "me1 \<le> Fin s" by (simp add: me1_def not_less)
  have me1_gt: "me1 < min_eval \<Longrightarrow> bm1 = Some mv \<and> me1 = Fin s"
    by (auto simp: me1_def bm1_def split: if_splits)
  show ?case
  proof (cases "min beta (Fin s) \<le> alpha")
    case True
    then have r: "min_loop search board player alpha beta min_eval best_move (mv # mvs)
        = Inr (board, me1, bm1)"
      using step by simp
    have rest: "rest = []" using True by (simp add: rest_def)
    have e: "me1 = min_eval \<longrightarrow> bm1 = best_move"
      by (auto simp: me1_def bm1_def)
    show ?thesis unfolding tr rest using r s_le me1_gt me1_ge e by auto
  next
    case False
    then have rest: "rest = seen_min search board player alpha (min beta (Fin s)) mvs"
      by (simp add: rest_def)
    have cells': "\<forall>mv\<in>set mvs. mv < length board \<and> board ! mv = None"
      using Cons.prems(1) by simp
    have callee': "\<forall>mv\<in>set mvs. \<forall>a b. \<exists>s m.
        search (board[mv := Some player]) (opponent player) True a b
          = Inr (board[mv := Some player], s, m)"
      using Cons.prems(2) by simp
    have "\<exists>me' bm'.
      min_loop search board player alpha (min beta (Fin s)) me1 bm1 mvs = Inr (board, me', bm')
      \<and> me' \<le> me1
      \<and> (me' = me1 \<longrightarrow> bm' = bm1)
      \<and> (\<forall>(i, r)\<in>set (seen_min search board player alpha (min beta (Fin s)) mvs). me' \<le> Fin r)
      \<and> (me' < me1 \<longrightarrow>
           (\<exists>j s'. bm' = Some j \<and> me' = Fin s'
              \<and> (j, s') \<in> set (seen_min search board player alpha (min beta (Fin s)) mvs)
              \<and> (\<forall>(i, r)\<in>set (takeWhile (\<lambda>p. fst p \<noteq> j)
                                    (seen_min search board player alpha (min beta (Fin s)) mvs)).
                    me' < Fin r)))"
      using cells' callee' by (rule Cons.IH)
    then obtain me0 bm0 where
      res0: "min_loop search board player alpha (min beta (Fin s)) me1 bm1 mvs = Inr (board, me0, bm0)"
      and ge: "me0 \<le> me1" and eq: "me0 = me1 \<longrightarrow> bm0 = bm1"
      and all: "\<forall>(i, r)\<in>set rest. me0 \<le> Fin r"
      and first: "me0 < me1 \<longrightarrow>
           (\<exists>j s. bm0 = Some j \<and> me0 = Fin s \<and> (j, s) \<in> set rest
              \<and> (\<forall>(i, r)\<in>set (takeWhile (\<lambda>p. fst p \<noteq> j) rest). me0 < Fin r))"
      unfolding rest by blast
    have r: "min_loop search board player alpha beta min_eval best_move (mv # mvs)
        = Inr (board, me0, bm0)"
      using step False res0 by simp
    have a: "\<forall>(i, r)\<in>set ((mv, s) # rest). me0 \<le> Fin r"
    proof -
      have "me0 \<le> Fin s" using s_le ge by order
      then show ?thesis using all by simp
    qed
    have f: "me0 < min_eval \<longrightarrow>
           (\<exists>j s'. bm0 = Some j \<and> me0 = Fin s' \<and> (j, s') \<in> set ((mv, s) # rest)
              \<and> (\<forall>(i, r)\<in>set (takeWhile (\<lambda>p. fst p \<noteq> j) ((mv, s) # rest)). me0 < Fin r))"
    proof
      assume h: "me0 < min_eval"
      show "\<exists>j s'. bm0 = Some j \<and> me0 = Fin s' \<and> (j, s') \<in> set ((mv, s) # rest)
              \<and> (\<forall>(i, r)\<in>set (takeWhile (\<lambda>p. fst p \<noteq> j) ((mv, s) # rest)). me0 < Fin r)"
      proof (cases "me0 < me1")
        case True
        with first obtain j s' where j: "bm0 = Some j" "me0 = Fin s'" "(j, s') \<in> set rest"
          "\<forall>(i, r)\<in>set (takeWhile (\<lambda>p. fst p \<noteq> j) rest). me0 < Fin r"
          by blast
        have "me0 < Fin s" using s_le True by order
        then have "\<forall>(i, r)\<in>set (takeWhile (\<lambda>p. fst p \<noteq> j) ((mv, s) # rest)). me0 < Fin r"
          using j(4) by auto
        then show ?thesis using j(1,2,3) by auto
      next
        case False
        then have e: "me0 = me1" using ge by order
        then have "me1 < min_eval" using h by simp
        then have "bm1 = Some mv" "me1 = Fin s" using me1_gt by simp_all
        then have "bm0 = Some mv" "me0 = Fin s" using e eq by simp_all
        then show ?thesis by auto
      qed
    qed
    have g: "me0 \<le> min_eval" using me1_ge ge by order
    have e: "me0 = min_eval \<longrightarrow> bm0 = best_move"
    proof
      assume h: "me0 = min_eval"
      then have "me1 = min_eval" using me1_ge ge by order
      then have "bm1 = best_move" "me0 = me1" using h by (auto simp: me1_def bm1_def split: if_splits)
      then show "bm0 = best_move" using eq by simp
    qed
    show ?thesis unfolding tr using r a f g e by blast
  qed
qed



definition seen :: "nat \<Rightarrow> board \<Rightarrow> mark \<Rightarrow> bool \<Rightarrow> ext \<Rightarrow> ext \<Rightarrow> (nat \<times> int) list" where
  "seen depth board player maximizing alpha beta =
     (if maximizing
      then seen_max (minimax depth) board player alpha beta (available_moves board)
      else seen_min (minimax depth) board player alpha beta (available_moves board))"

lemma seen_prefix:
  "map fst (seen depth board player maximizing alpha beta)
     = take (length (seen depth board player maximizing alpha beta)) (available_moves board)"
  unfolding seen_def using seen_max_prefix seen_min_prefix by simp

lemma takeWhile_fst_less:
  fixes tr :: "(nat \<times> 'a) list"
  shows "sorted (map fst tr) \<Longrightarrow> (j, s) \<in> set tr \<Longrightarrow> (i, r) \<in> set tr \<Longrightarrow> i < j \<Longrightarrow>
         (i, r) \<in> set (takeWhile (\<lambda>p. fst p \<noteq> j) tr)"
proof (induction tr)
  case Nil
  then show ?case by simp
next
  case (Cons p tr)
  show ?case
  proof (cases "fst p = j")
    case True
    have "(i, r) \<in> set tr" using Cons.prems(3,4) True by auto
    then have "fst p \<le> i" using Cons.prems(1) by force
    then show ?thesis using True Cons.prems(4) by simp
  next
    case False
    then have j: "(j, s) \<in> set tr" using Cons.prems(2) by auto
    have srt: "sorted (map fst tr)" using Cons.prems(1) by simp
    show ?thesis
    proof (cases "(i, r) = p")
      case True
      then show ?thesis using False by simp
    next
      case ne: False
      then have m: "(i, r) \<in> set tr" using Cons.prems(3) by auto
      from srt j m Cons.prems(4) have "(i, r) \<in> set (takeWhile (\<lambda>p. fst p \<noteq> j) tr)"
        by (rule Cons.IH)
      then show ?thesis using False by simp
    qed
  qed
qed

lemma seen_sorted: "sorted (map fst (seen depth board player maximizing alpha beta))"
proof -
  have "sorted (take (length (seen depth board player maximizing alpha beta))
                  (available_moves board))"
    using available_moves_sorted by (rule sorted_wrt_take)
  then show ?thesis using seen_prefix [of depth board player maximizing alpha beta] by simp
qed

lemma seen_available:
  assumes "(i, r) \<in> set (seen depth board player maximizing alpha beta)"
  shows "i \<in> set (available_moves board)"
proof -
  from assms have "i \<in> set (map fst (seen depth board player maximizing alpha beta))"
    by force
  then have "i \<in> set (take (length (seen depth board player maximizing alpha beta))
                          (available_moves board))"
    using seen_prefix [of depth board player maximizing alpha beta] by simp
  then show ?thesis by (rule in_set_takeD)
qed

lemma minimax_seen:
  assumes len: "9 \<le> length board" and cnt: "count_empty board < Suc depth"
    and w: "check_winner board = Inr None" and nf: "\<not> is_board_full board"
  shows "\<exists>s j. minimax (Suc depth) board player maximizing alpha beta = Inr (board, s, Some j)
     \<and> (j, s) \<in> set (seen depth board player maximizing alpha beta)
     \<and> (\<forall>(i, r)\<in>set (seen depth board player maximizing alpha beta).
           if maximizing then r \<le> s \<and> (i < j \<longrightarrow> r < s)
           else s \<le> r \<and> (i < j \<longrightarrow> s < r))"
proof -
  have ne: "available_moves board \<noteq> []" using nf by (simp add: is_board_full_iff)
  have cells: "\<forall>mv\<in>set (available_moves board). mv < length board \<and> board ! mv = None"
    by (simp add: available_moves_set)
  have callee: "\<forall>mv\<in>set (available_moves board). \<forall>a b. \<exists>s m.
      minimax depth (board[mv := Some player]) (opponent player) flag a b
        = Inr (board[mv := Some player], s, m)" for flag
    using minimax_total child_board(1,2) [OF len cnt] by blast
  show ?thesis
  proof (cases maximizing)
    case True
    let ?tr = "seen_max (minimax depth) board player alpha beta (available_moves board)"
    have tr: "seen depth board player maximizing alpha beta = ?tr"
      using True by (simp add: seen_def)
    have "\<exists>me' bm'.
      max_loop (minimax depth) board player alpha beta MInf None (available_moves board)
        = Inr (board, me', bm')
      \<and> MInf \<le> me'
      \<and> (me' = MInf \<longrightarrow> bm' = None)
      \<and> (\<forall>(i, r)\<in>set ?tr. Fin r \<le> me')
      \<and> (MInf < me' \<longrightarrow>
           (\<exists>j s. bm' = Some j \<and> me' = Fin s \<and> (j, s) \<in> set ?tr
              \<and> (\<forall>(i, r)\<in>set (takeWhile (\<lambda>p. fst p \<noteq> j) ?tr). Fin r < me')))"
      using cells callee [of False] by (rule max_loop_seen)
    then obtain me' bm' where
      res: "max_loop (minimax depth) board player alpha beta MInf None (available_moves board)
              = Inr (board, me', bm')"
      and all: "\<forall>(i, r)\<in>set ?tr. Fin r \<le> me'"
      and first: "MInf < me' \<longrightarrow>
           (\<exists>j s. bm' = Some j \<and> me' = Fin s \<and> (j, s) \<in> set ?tr
              \<and> (\<forall>(i, r)\<in>set (takeWhile (\<lambda>p. fst p \<noteq> j) ?tr). Fin r < me'))"
      by blast
    have "\<exists>me' bm'.
      max_loop (minimax depth) board player alpha beta MInf None (available_moves board)
        = Inr (board, me', bm')
      \<and> MInf \<le> me'
      \<and> (me' = MInf \<longrightarrow> bm' = None)
      \<and> (MInf < me' \<longrightarrow> (\<exists>j\<in>set (available_moves board). bm' = Some j) \<and> (\<exists>i. me' = Fin i))
      \<and> (available_moves board \<noteq> [] \<longrightarrow> MInf < me')"
      using cells callee [of False] by (rule max_loop_total)
    with res ne have "MInf < me'" by auto
    with first obtain j s where j: "bm' = Some j" "me' = Fin s" "(j, s) \<in> set ?tr"
      and before: "\<forall>(i, r)\<in>set (takeWhile (\<lambda>p. fst p \<noteq> j) ?tr). Fin r < me'"
      by blast
    have r: "minimax (Suc depth) board player maximizing alpha beta = Inr (board, s, Some j)"
      using w nf True res j by simp
    have "r \<le> s \<and> (i < j \<longrightarrow> r < s)" if m: "(i, r) \<in> set ?tr" for i r
    proof
      from all m j(2) show "r \<le> s" by auto
      show "i < j \<longrightarrow> r < s"
      proof
        assume "i < j"
        with seen_sorted [of depth board player maximizing alpha beta] j(3) m
        have "(i, r) \<in> set (takeWhile (\<lambda>p. fst p \<noteq> j) ?tr)"
          unfolding tr by (rule takeWhile_fst_less)
        with before j(2) show "r < s" by auto
      qed
    qed
    then show ?thesis unfolding tr using r j(3) True by auto
  next
    case False
    let ?tr = "seen_min (minimax depth) board player alpha beta (available_moves board)"
    have tr: "seen depth board player maximizing alpha beta = ?tr"
      using False by (simp add: seen_def)
    have "\<exists>me' bm'.
      min_loop (minimax depth) board player alpha beta PInf None (available_moves board)
        = Inr (board, me', bm')
      \<and> me' \<le> PInf
      \<and> (me' = PInf \<longrightarrow> bm' = None)
      \<and> (\<forall>(i, r)\<in>set ?tr. me' \<le> Fin r)
      \<and> (me' < PInf \<longrightarrow>
           (\<exists>j s. bm' = Some j \<and> me' = Fin s \<and> (j, s) \<in> set ?tr
              \<and> (\<forall>(i, r)\<in>set (takeWhile (\<lambda>p. fst p \<noteq> j) ?tr). me' < Fin r)))"
      using cells callee [of True] by (rule min_loop_seen)
    then obtain me' bm' where
      res: "min_loop (minimax depth) board player alpha beta PInf None (available_moves board)
              = Inr (board, me', bm')"
      and all: "\<forall>(i, r)\<in>set ?tr. me' \<le> Fin r"
      and first: "me' < PInf \<longrightarrow>
           (\<exists>j s. bm' = Some j \<and> me' = Fin s \<and> (j, s) \<in> set ?tr
              \<and> (\<forall>(i, r)\<in>set (takeWhile (\<lambda>p. fst p \<noteq> j) ?tr). me' < Fin r))"
      by blast
    have "\<exists>me' bm'.
      min_loop (minimax depth) board player alpha beta PInf None (available_moves board)
        = Inr (board, me', bm')
      \<and> me' \<le> PInf
      \<and> (me' = PInf \<longrightarrow> bm' = None)
      \<and> (me' < PInf \<longrightarrow> (\<exists>j\<in>set (available_moves board). bm' = Some j) \<and> (\<exists>i. me' = Fin i))
      \<and> (available_moves board \<noteq> [] \<longrightarrow> me' < PInf)"
      using cells callee [of True] by (rule min_loop_total)
    with res ne have "me' < PInf" by auto
    with first obtain j s where j: "bm' = Some j" "me' = Fin s" "(j, s) \<in> set ?tr"
      and before: "\<forall>(i, r)\<in>set (takeWhile (\<lambda>p. fst p \<noteq> j) ?tr). me' < Fin r"
      by blast
    have r: "minimax (Suc depth) board player maximizing alpha beta = Inr (board, s, Some j)"
      using w nf False res j by simp
    have "s \<le> r \<and> (i < j \<longrightarrow> s < r)" if m: "(i, r) \<in> set ?tr" for i r
    proof
      from all m j(2) show "s \<le> r" by auto
      show "i < j \<longrightarrow> s < r"
      proof
        assume "i < j"
        with seen_sorted [of depth board player maximizing alpha beta] j(3) m
        have "(i, r) \<in> set (takeWhile (\<lambda>p. fst p \<noteq> j) ?tr)"
          unfolding tr by (rule takeWhile_fst_less)
        with before j(2) show "s < r" by auto
      qed
    qed
    then show ?thesis unfolding tr using r j(3) False by auto
  qed
qed


section \<open>Claims about the result of the search\<close>

lemma full_window_exact: "fishburn MInf PInf (Fin v) (Fin s) \<Longrightarrow> s = v"
  by (simp add: fishburn_def)

lemma takeWhile_sorted_less:
  fixes xs :: "nat list"
  shows "sorted xs \<Longrightarrow> distinct xs \<Longrightarrow> j \<in> set xs \<Longrightarrow>
         set (takeWhile (\<lambda>i. i \<noteq> j) xs) = {i \<in> set xs. i < j}"
proof (induction xs)
  case Nil
  then show ?case by simp
next
  case (Cons x xs)
  show ?case
  proof (cases "x = j")
    case True
    have "\<forall>i\<in>set xs. j \<le> i" using Cons.prems(1) True by simp
    then have "{i \<in> set (x # xs). i < j} = {}" using True by auto
    then show ?thesis using True by simp
  next
    case False
    then have j: "j \<in> set xs" using Cons.prems(3) by simp
    then have "x \<le> j" using Cons.prems(1) by simp
    then have "x < j" using False by simp
    moreover have "set (takeWhile (\<lambda>i. i \<noteq> j) xs) = {i \<in> set xs. i < j}"
      using Cons.IH Cons.prems j by simp
    ultimately show ?thesis using False by auto
  qed
qed

text \<open>
  C2. Called with the window from \<open>-math.inf\<close> to \<open>math.inf\<close>, the pruned search returns
  the score of the search without pruning, on every board of at least nine cells (all
  boards of a game are among them), for either mark to move and either kind of node.
\<close>

theorem pruned_score_is_unpruned_score:
  assumes "9 \<le> length board" and "count_empty board < depth"
  shows "\<exists>move. minimax depth board player maximizing MInf PInf
           = Inr (board, unpruned board player maximizing, move)"
proof -
  have "MInf < PInf" by simp
  from minimax_fishburn [OF assms this, of player maximizing] obtain s m where
    r: "minimax depth board player maximizing MInf PInf = Inr (board, s, m)"
    and f: "fishburn MInf PInf (Fin (unpruned board player maximizing)) (Fin s)"
    by blast
  from f have "s = unpruned board player maximizing" by (rule full_window_exact)
  with r show ?thesis by blast
qed

theorem pruned_score_is_unpruned_score_witness:
  "unpruned [Some MarkX, Some MarkO, None, None, Some MarkX, None, None, None, Some MarkO]
     MarkX True = 1
   \<and> (\<exists>move.
        minimax 10 [Some MarkX, Some MarkO, None, None, Some MarkX, None, None, None, Some MarkO]
          MarkX True MInf PInf
        = Inr ([Some MarkX, Some MarkO, None, None, Some MarkX, None, None, None, Some MarkO],
               1, move))"
proof -
  let ?b = "[Some MarkX, Some MarkO, None, None, Some MarkX, None, None, None, Some MarkO]"
  have l: "9 \<le> length ?b" by simp
  have c: "count_empty ?b < 10" by (simp add: count_empty_def)
  have s: "minimax 10 ?b MarkX True MInf PInf = Inr (?b, 1, Some 3)" by code_simp
  from pruned_score_is_unpruned_score [OF l c, of MarkX True] s
  show ?thesis by simp
qed

text \<open>
  C6. At every node that is not terminal, whatever its window, the moves are tried in
  ascending order of the cell index, and the node returns the first of the moves with the
  best score seen: \<open>seen\<close> lists the moves the loop tries with the score each search
  returned, a prefix of the ascending list of empty cells; the score returned is the
  greatest of them at a maximizing node (the least at a minimizing one), the move returned
  has that score, and every move tried before it has a strictly lower (higher) score. So a
  later move of equal score never replaces the chosen one. When the score lies inside the
  window it is the score of the search without pruning, and the move returned is the
  lowest empty cell whose score without pruning is that of the node.
\<close>

theorem search_returns_first_best_move:
  assumes "9 \<le> length board" and "count_empty board < Suc depth"
    and "check_winner board = Inr None" and "\<not> is_board_full board"
  shows "sorted (available_moves board) \<and> distinct (available_moves board)
    \<and> set (available_moves board) = {i. i < length board \<and> board ! i = None}
    \<and> map fst (seen depth board player maximizing alpha beta)
        = take (length (seen depth board player maximizing alpha beta)) (available_moves board)
    \<and> (\<exists>s j. minimax (Suc depth) board player maximizing alpha beta = Inr (board, s, Some j)
          \<and> j \<in> set (available_moves board)
          \<and> (j, s) \<in> set (seen depth board player maximizing alpha beta)
          \<and> (\<forall>(i, r)\<in>set (seen depth board player maximizing alpha beta).
                if maximizing then r \<le> s \<and> (i < j \<longrightarrow> r < s)
                else s \<le> r \<and> (i < j \<longrightarrow> s < r))
          \<and> (alpha < Fin s \<and> Fin s < beta \<longrightarrow>
               s = unpruned board player maximizing
               \<and> unpruned (board[j := Some player]) (opponent player) (\<not> maximizing) = s
               \<and> (\<forall>i\<in>set (available_moves board). i < j \<longrightarrow>
                     (if maximizing
                      then unpruned (board[i := Some player]) (opponent player) False < s
                      else s < unpruned (board[i := Some player]) (opponent player) True))))"
proof -
  from minimax_seen [OF assms, of player maximizing alpha beta] obtain s j where
    r: "minimax (Suc depth) board player maximizing alpha beta = Inr (board, s, Some j)"
    and mem: "(j, s) \<in> set (seen depth board player maximizing alpha beta)"
    and tr: "\<forall>(i, r)\<in>set (seen depth board player maximizing alpha beta).
                if maximizing then r \<le> s \<and> (i < j \<longrightarrow> r < s)
                else s \<le> r \<and> (i < j \<longrightarrow> s < r)"
    by blast
  from mem have av: "j \<in> set (available_moves board)" by (rule seen_available)
  have inside: "alpha < Fin s \<and> Fin s < beta \<longrightarrow>
       s = unpruned board player maximizing
       \<and> unpruned (board[j := Some player]) (opponent player) (\<not> maximizing) = s
       \<and> (\<forall>i\<in>set (available_moves board). i < j \<longrightarrow>
             (if maximizing
              then unpruned (board[i := Some player]) (opponent player) False < s
              else s < unpruned (board[i := Some player]) (opponent player) True))"
  proof
    assume win: "alpha < Fin s \<and> Fin s < beta"
    then have ab: "alpha < beta" using less_trans by blast
    from minimax_fishburn [OF assms(1,2) ab, of player maximizing] r have
      f: "fishburn alpha beta (Fin (unpruned board player maximizing)) (Fin s)"
      and o: "check_winner board = Inr None \<and> \<not> is_board_full board
          \<and> alpha < Fin s \<and> Fin s < beta \<longrightarrow>
          (\<exists>j'\<in>set (available_moves board). Some j = Some j'
             \<and> unpruned (board[j' := Some player]) (opponent player) (\<not> maximizing) = s
             \<and> (\<forall>i\<in>set (takeWhile (\<lambda>i. i \<noteq> j') (available_moves board)).
                  if maximizing
                  then unpruned (board[i := Some player]) (opponent player) False < s
                  else s < unpruned (board[i := Some player]) (opponent player) True))"
      by auto
    from win f have e: "s = unpruned board player maximizing" by (simp add: fishburn_def)
    from o win assms(3,4) have
      u: "unpruned (board[j := Some player]) (opponent player) (\<not> maximizing) = s"
      and before: "\<forall>i\<in>set (takeWhile (\<lambda>i. i \<noteq> j) (available_moves board)).
                  if maximizing
                  then unpruned (board[i := Some player]) (opponent player) False < s
                  else s < unpruned (board[i := Some player]) (opponent player) True"
      by auto
    have "set (takeWhile (\<lambda>i. i \<noteq> j) (available_moves board))
            = {i \<in> set (available_moves board). i < j}"
      using available_moves_sorted available_moves_distinct av by (rule takeWhile_sorted_less)
    with before have "\<forall>i\<in>set (available_moves board). i < j \<longrightarrow>
                   (if maximizing
                    then unpruned (board[i := Some player]) (opponent player) False < s
                    else s < unpruned (board[i := Some player]) (opponent player) True)"
      by simp
    with e u show "s = unpruned board player maximizing
       \<and> unpruned (board[j := Some player]) (opponent player) (\<not> maximizing) = s
       \<and> (\<forall>i\<in>set (available_moves board). i < j \<longrightarrow>
             (if maximizing
              then unpruned (board[i := Some player]) (opponent player) False < s
              else s < unpruned (board[i := Some player]) (opponent player) True))"
      by blast
  qed
  show ?thesis
    using available_moves_sorted [of board] available_moves_distinct [of board]
      available_moves_set [of board] seen_prefix [of depth board player maximizing alpha beta]
      r av mem tr inside
    by blast
qed

text \<open>
  On the first board of the witness the window is \<open>(1, +\<infinity>)\<close> and the three moves of
  \<open>X\<close> all score \<open>-1\<close>, below the window: the search returns cell 4, the first of them.
  On the second board \<open>X\<close> can complete the top row at cell 2 or the left column at
  cell 6; all three moves score 1, and the search returns cell 2.
\<close>

theorem search_returns_first_best_move_witness:
  "minimax (Suc 9) [Some MarkX, Some MarkX, Some MarkO, Some MarkX, None, None,
                    Some MarkO, None, Some MarkO] MarkX True (Fin 1) PInf
     = Inr ([Some MarkX, Some MarkX, Some MarkO, Some MarkX, None, None,
             Some MarkO, None, Some MarkO], - 1, Some 4)
   \<and> seen 9 [Some MarkX, Some MarkX, Some MarkO, Some MarkX, None, None,
              Some MarkO, None, Some MarkO] MarkX True (Fin 1) PInf
       = [(4, - 1), (5, - 1), (7, - 1)]
   \<and> (4, - 1) \<in> set (seen 9 [Some MarkX, Some MarkX, Some MarkO, Some MarkX, None, None,
                               Some MarkO, None, Some MarkO] MarkX True (Fin 1) PInf)
   \<and> minimax (Suc 9) [Some MarkX, Some MarkX, None, Some MarkX, Some MarkO, Some MarkO,
                      None, Some MarkO, None] MarkX True MInf PInf
     = Inr ([Some MarkX, Some MarkX, None, Some MarkX, Some MarkO, Some MarkO,
             None, Some MarkO, None], 1, Some 2)
   \<and> seen 9 [Some MarkX, Some MarkX, None, Some MarkX, Some MarkO, Some MarkO,
              None, Some MarkO, None] MarkX True MInf PInf
       = [(2, 1), (6, 1), (8, 1)]
   \<and> unpruned [Some MarkX, Some MarkX, Some MarkX, Some MarkX, Some MarkO, Some MarkO,
                None, Some MarkO, None] MarkO False = 1
   \<and> unpruned [Some MarkX, Some MarkX, None, Some MarkX, Some MarkO, Some MarkO,
                Some MarkX, Some MarkO, None] MarkO False = 1"
proof -
  let ?b = "[Some MarkX, Some MarkX, Some MarkO, Some MarkX, None, None,
             Some MarkO, None, Some MarkO]"
  let ?c = "[Some MarkX, Some MarkX, None, Some MarkX, Some MarkO, Some MarkO,
             None, Some MarkO, None]"
  have l: "9 \<le> length ?b" by simp
  have c: "count_empty ?b < Suc 9" by (simp add: count_empty_def)
  have w: "check_winner ?b = Inr None" by (simp add: check_winner_def WIN_LINES_def)
  have f: "\<not> is_board_full ?b" by (simp add: is_board_full_def)
  have s: "minimax (Suc 9) ?b MarkX True (Fin 1) PInf = Inr (?b, - 1, Some 4)" by code_simp
  have t: "seen 9 ?b MarkX True (Fin 1) PInf = [(4, - 1), (5, - 1), (7, - 1)]" by code_simp
  have s': "minimax (Suc 9) ?c MarkX True MInf PInf = Inr (?c, 1, Some 2)" by code_simp
  have t': "seen 9 ?c MarkX True MInf PInf = [(2, 1), (6, 1), (8, 1)]" by code_simp
  have u2: "unpruned [Some MarkX, Some MarkX, Some MarkX, Some MarkX, Some MarkO, Some MarkO,
                None, Some MarkO, None] MarkO False = 1"
    by (simp add: check_winner_def WIN_LINES_def)
  have u6: "unpruned [Some MarkX, Some MarkX, None, Some MarkX, Some MarkO, Some MarkO,
                Some MarkX, Some MarkO, None] MarkO False = 1"
    by (simp add: check_winner_def WIN_LINES_def)
  from search_returns_first_best_move [OF l c w f, of MarkX True "Fin 1" PInf]
  obtain s0 j0 where
    r: "minimax (Suc 9) ?b MarkX True (Fin 1) PInf = Inr (?b, s0, Some j0)"
    and m: "(j0, s0) \<in> set (seen 9 ?b MarkX True (Fin 1) PInf)"
    by blast
  from r have "s0 = - 1" "j0 = 4" unfolding s by simp_all
  with m have "(4, - 1) \<in> set (seen 9 ?b MarkX True (Fin 1) PInf)" by simp
  with s t s' t' u2 u6 show ?thesis by blast
qed

lemma best_move_for_available:
  assumes "length board = 9" and "game_over board = Inr False"
    and "count_empty board < depth" and "rnd < length opening_cells"
  shows "\<exists>mv. best_move_for depth rnd board ai_player = Inr (board, Some mv)
           \<and> mv < 9 \<and> board ! mv = None \<and> mv \<in> set (available_moves board)"
proof -
  from assms(2) have w: "check_winner board = Inr None" and nf: "\<not> is_board_full board"
    by (auto simp: game_over_def split: sum.splits)
  have len: "9 \<le> length board" using assms(1) by simp
  have avail: "mv \<in> set (available_moves board) \<Longrightarrow> mv < 9 \<and> board ! mv = None" for mv
    using assms(1) by (simp add: available_moves_set)
  show ?thesis
  proof (cases "list_all (\<lambda>v. v = None) board")
    case True
    then have cells: "\<forall>i<9. board ! i = None" using assms(1) by (simp add: list_all_length)
    have "opening_cells ! rnd < 9"
      using assms(4) by (auto simp: opening_cells_def less_Suc_eq numeral_eq_Suc)
    then have "opening_cells ! rnd \<in> set (available_moves board)"
      using cells assms(1) by (simp add: available_moves_set)
    then show ?thesis using True assms(4) avail by (simp add: best_move_for_def)
  next
    case False
    from minimax_total [OF len assms(3), of MarkX True MInf PInf] w nf obtain sx jx where
      x: "minimax depth board MarkX True MInf PInf = Inr (board, sx, Some jx)"
         "jx \<in> set (available_moves board)"
      by blast
    from minimax_total [OF len assms(3), of MarkO False MInf PInf] w nf obtain so jo where
      o: "minimax depth board MarkO False MInf PInf = Inr (board, so, Some jo)"
         "jo \<in> set (available_moves board)"
      by blast
    show ?thesis using False x o avail by (simp add: best_move_for_def)
  qed
qed

text \<open>
  C9. On a board of nine cells that is not finished, \<open>best_move_for\<close> returns a cell
  index below 9 whose cell is empty: one of the board's available moves. The board is
  left as it was.
\<close>

theorem best_move_is_available:
  assumes "length board = 9" and "game_over board = Inr False"
    and "count_empty board < depth" and "rnd < length opening_cells"
  shows "\<exists>mv. best_move_for depth rnd board ai_player = Inr (board, Some mv)
           \<and> mv < 9 \<and> board ! mv = None \<and> mv \<in> set (available_moves board)"
  using assms by (rule best_move_for_available)

theorem best_move_is_available_witness:
  "\<exists>mv. best_move_for 10 0
           [Some MarkX, Some MarkO, None, None, Some MarkX, None, None, None, Some MarkO] MarkX
         = Inr ([Some MarkX, Some MarkO, None, None, Some MarkX, None, None, None, Some MarkO],
                Some mv)
       \<and> mv < 9
       \<and> [Some MarkX, Some MarkO, None, None, Some MarkX, None, None, None, Some MarkO] ! mv = None
       \<and> mv \<in> set (available_moves
            [Some MarkX, Some MarkO, None, None, Some MarkX, None, None, None, Some MarkO])"
proof -
  let ?b = "[Some MarkX, Some MarkO, None, None, Some MarkX, None, None, None, Some MarkO]"
  have l: "length ?b = 9" by simp
  have g: "game_over ?b = Inr False"
    by (simp add: game_over_def check_winner_def WIN_LINES_def is_board_full_def)
  have c: "count_empty ?b < 10" by (simp add: count_empty_def)
  have r: "0 < length opening_cells" by (simp add: opening_cells_def)
  from best_move_is_available [OF l g c r, of MarkX] show ?thesis .
qed

text \<open>
  C7, as amended. On a board with no mark \<open>best_move_for\<close> does not search (it
  answers even with no depth for a single call): it returns the cell that
  \<open>random.choice\<close> draws from the list of the five opening cells, the centre and the
  four corners, 0, 2, 4, 6 and 8. Each of the five is the answer for exactly one of the
  five positions \<open>random.choice\<close> can draw, so a uniform draw gives each cell the same
  chance, and nothing else is returned.
\<close>

theorem opening_move_is_one_of_five:
  assumes "list_all (\<lambda>v. v = None) board"
  shows "(\<forall>rnd < length opening_cells.
            best_move_for depth rnd board ai_player = Inr (board, Some (opening_cells ! rnd)))
    \<and> {mv. \<exists>rnd < length opening_cells. best_move_for depth rnd board ai_player = Inr (board, Some mv)}
         = {0, 2, 4, 6, 8}
    \<and> opening_cells = [0, 2, 4, 6, 8] \<and> length opening_cells = 5 \<and> distinct opening_cells
    \<and> (\<forall>c\<in>{0, 2, 4, 6, 8}.
          card {rnd. rnd < length opening_cells \<and> opening_cells ! rnd = c} = 1)"
proof -
  have a: "\<forall>rnd < length opening_cells.
            best_move_for depth rnd board ai_player = Inr (board, Some (opening_cells ! rnd))"
    using assms by (simp add: best_move_for_def)
  have "{mv. \<exists>rnd < length opening_cells. best_move_for depth rnd board ai_player = Inr (board, Some mv)}
          = {mv. \<exists>rnd < length opening_cells. mv = opening_cells ! rnd}"
    using a by auto
  also have "\<dots> = set opening_cells" by (auto simp: in_set_conv_nth)
  also have "\<dots> = {0, 2, 4, 6, 8}" by (simp add: opening_cells_def)
  finally have b: "{mv. \<exists>rnd < length opening_cells.
      best_move_for depth rnd board ai_player = Inr (board, Some mv)} = {0, 2, 4, 6, 8}" .
  have d: "distinct opening_cells" by (simp add: opening_cells_def)
  have e: "card {rnd. rnd < length opening_cells \<and> opening_cells ! rnd = c} = 1"
    if "c \<in> set opening_cells" for c
  proof -
    from that obtain i where i: "i < length opening_cells" "opening_cells ! i = c"
      by (auto simp: in_set_conv_nth)
    have "{rnd. rnd < length opening_cells \<and> opening_cells ! rnd = c} = {i}"
      using i d by (auto simp: nth_eq_iff_index_eq)
    then show ?thesis by simp
  qed
  have f: "set opening_cells = {0, 2, 4, 6, 8}" by (simp add: opening_cells_def)
  show ?thesis using a b d e f by (simp add: opening_cells_def)
qed

theorem opening_move_is_one_of_five_witness:
  "{mv. \<exists>rnd < length opening_cells. best_move_for 0 rnd new_board MarkX = Inr (new_board, Some mv)}
     = {0, 2, 4, 6, 8}
   \<and> best_move_for 0 3 new_board MarkX = Inr (new_board, Some 6)"
proof -
  have e: "list_all (\<lambda>v. v = None) new_board" by (simp add: new_board_def list_all_iff)
  have "(3::nat) < length opening_cells" "opening_cells ! 3 = 6"
    by (simp_all add: opening_cells_def)
  with opening_move_is_one_of_five [OF e, where depth = 0 and ai_player = MarkX]
  show ?thesis by metis
qed

text \<open>
  The claim counts four opening cells. The values \<open>best_move_for\<close> can return on the
  empty board are five.
\<close>

theorem opening_cells_four_counterexample:
  "card {mv. \<exists>rnd < length opening_cells.
            best_move_for 0 rnd new_board MarkX = Inr (new_board, Some mv)} \<noteq> 4"
proof -
  have e: "list_all (\<lambda>v. v = None) new_board" by (simp add: new_board_def list_all_iff)
  have "{mv. \<exists>rnd < length opening_cells.
            best_move_for 0 rnd new_board MarkX = Inr (new_board, Some mv)}
          = {mv. \<exists>rnd < length opening_cells. mv = opening_cells ! rnd}"
    using e by (auto simp: best_move_for_def)
  also have "\<dots> = set opening_cells" by (auto simp: in_set_conv_nth)
  also have "\<dots> = {0, 2, 4, 6, 8}" by (simp add: opening_cells_def)
  finally show ?thesis by simp
qed


section \<open>The value of the opening positions\<close>

text \<open>
  A strategy for one mark, written down as a tree: at a position where the mark is to
  move, the cell it plays; at a position where the other mark is to move, one subtree
  for each empty cell in ascending order; \<open>Done\<close> where the game is over. \<open>safe\<close>
  checks that the tree is a strategy on the given board with which the mark never
  loses.
\<close>

datatype cert = Done | Play nat cert | Reply "cert list"

definition finished_unbeaten :: "mark \<Rightarrow> board \<Rightarrow> bool" where
  "finished_unbeaten me board =
     (case check_winner board of
        Inl e \<Rightarrow> False
      | Inr None \<Rightarrow> is_board_full board
      | Inr (Some w) \<Rightarrow> w = me)"

definition still_open :: "board \<Rightarrow> bool" where
  "still_open board \<longleftrightarrow> check_winner board = Inr None \<and> \<not> is_board_full board"

fun safe :: "mark \<Rightarrow> cert \<Rightarrow> board \<Rightarrow> mark \<Rightarrow> bool" where
  "safe me Done board current = finished_unbeaten me board"
| "safe me (Play mv c) board current =
     (still_open board \<and> current = me \<and> mv < length board \<and> board ! mv = None
      \<and> safe me c (board[mv := Some current]) (opponent current))"
| "safe me (Reply cs) board current =
     (still_open board \<and> current \<noteq> me
      \<and> list_all2 (\<lambda>c mv. safe me c (board[mv := Some current]) (opponent current))
            cs (available_moves board))"

definition cert_X_0 :: cert where
  "cert_X_0 =
     Reply [Play 3 (Reply [Play 6 Done, Play 6 Done, Play 6 Done, Play 4 (Reply [Play 5 Done,
     Play 8 Done, Play 5 Done, Play 5 Done]), Play 6 Done, Play 6 Done]), Play 3 (Reply [Play 6
     Done, Play 6 Done, Play 6 Done, Play 4 (Reply [Play 5 Done, Play 8 Done, Play 5 Done, Play
     5 Done]), Play 6 Done, Play 6 Done]), Play 1 (Reply [Play 4 (Reply [Play 7 Done, Play 7
     Done, Play 8 Done, Play 7 Done]), Play 2 Done, Play 2 Done, Play 2 Done, Play 2 Done, Play
     2 Done]), Play 1 (Reply [Play 6 (Reply [Play 5 (Reply [Play 8 Done, Play 7 Done]), Play 3
     Done, Play 3 Done, Play 3 Done]), Play 2 Done, Play 2 Done, Play 2 Done, Play 2 Done, Play
     2 Done]), Play 2 (Reply [Play 4 (Reply [Play 6 Done, Play 8 Done, Play 6 Done, Play 6
     Done]), Play 1 Done, Play 1 Done, Play 1 Done, Play 1 Done, Play 1 Done]), Play 1 (Reply
     [Play 4 (Reply [Play 7 Done, Play 7 Done, Play 8 Done, Play 7 Done]), Play 2 Done, Play 2
     Done, Play 2 Done, Play 2 Done, Play 2 Done]), Play 2 (Reply [Play 4 (Reply [Play 6 Done,
     Play 6 Done, Play 8 Done, Play 6 Done]), Play 1 Done, Play 1 Done, Play 1 Done, Play 1
     Done, Play 1 Done]), Play 2 (Reply [Play 6 (Reply [Play 4 Done, Play 3 Done, Play 3 Done,
     Play 3 Done]), Play 1 Done, Play 1 Done, Play 1 Done, Play 1 Done, Play 1 Done])]"

definition cert_X_2 :: cert where
  "cert_X_2 =
     Reply [Play 5 (Reply [Play 8 Done, Play 8 Done, Play 8 Done, Play 8 Done, Play 8 Done,
     Play 4 (Reply [Play 3 Done, Play 6 Done, Play 3 Done, Play 3 Done])]), Play 4 (Reply [Play
     6 Done, Play 6 Done, Play 6 Done, Play 5 (Reply [Play 3 Done, Play 8 Done, Play 3 Done,
     Play 3 Done]), Play 6 Done, Play 6 Done]), Play 0 (Reply [Play 4 (Reply [Play 6 Done, Play
     8 Done, Play 6 Done, Play 6 Done]), Play 1 Done, Play 1 Done, Play 1 Done, Play 1 Done,
     Play 1 Done]), Play 1 (Reply [Play 8 (Reply [Play 5 Done, Play 3 (Reply [Play 7 Done, Play
     6 Done]), Play 5 Done, Play 5 Done]), Play 0 Done, Play 0 Done, Play 0 Done, Play 0 Done,
     Play 0 Done]), Play 0 (Reply [Play 4 (Reply [Play 6 Done, Play 8 Done, Play 6 Done, Play 6
     Done]), Play 1 Done, Play 1 Done, Play 1 Done, Play 1 Done, Play 1 Done]), Play 0 (Reply
     [Play 8 (Reply [Play 4 Done, Play 5 Done, Play 4 Done, Play 4 Done]), Play 1 Done, Play 1
     Done, Play 1 Done, Play 1 Done, Play 1 Done]), Play 0 (Reply [Play 4 (Reply [Play 6 Done,
     Play 6 Done, Play 8 Done, Play 6 Done]), Play 1 Done, Play 1 Done, Play 1 Done, Play 1
     Done, Play 1 Done]), Play 0 (Reply [Play 6 (Reply [Play 4 Done, Play 3 Done, Play 3 Done,
     Play 3 Done]), Play 1 Done, Play 1 Done, Play 1 Done, Play 1 Done, Play 1 Done])]"

definition cert_X_4 :: cert where
  "cert_X_4 =
     Reply [Play 1 (Reply [Play 7 Done, Play 7 Done, Play 7 Done, Play 7 Done, Play 3 (Reply
     [Play 5 Done, Play 2 (Reply [Play 8 Done, Play 6 Done]), Play 5 Done, Play 5 Done]), Play
     7 Done]), Play 0 (Reply [Play 8 Done, Play 8 Done, Play 8 Done, Play 8 Done, Play 8 Done,
     Play 3 (Reply [Play 5 Done, Play 6 Done, Play 5 Done, Play 5 Done])]), Play 0 (Reply [Play
     8 Done, Play 8 Done, Play 8 Done, Play 8 Done, Play 8 Done, Play 5 (Reply [Play 3 Done,
     Play 1 (Reply [Play 7 Done, Play 6 Done]), Play 3 Done, Play 3 Done])]), Play 0 (Reply
     [Play 8 Done, Play 8 Done, Play 8 Done, Play 8 Done, Play 8 Done, Play 1 (Reply [Play 7
     Done, Play 2 Done, Play 2 Done, Play 2 Done])]), Play 0 (Reply [Play 8 Done, Play 8 Done,
     Play 8 Done, Play 8 Done, Play 8 Done, Play 2 (Reply [Play 6 Done, Play 1 Done, Play 1
     Done, Play 1 Done])]), Play 0 (Reply [Play 8 Done, Play 8 Done, Play 8 Done, Play 8 Done,
     Play 8 Done, Play 7 (Reply [Play 2 (Reply [Play 5 Done, Play 3 Done]), Play 1 Done, Play 1
     Done, Play 1 Done])]), Play 0 (Reply [Play 8 Done, Play 8 Done, Play 8 Done, Play 8 Done,
     Play 8 Done, Play 6 (Reply [Play 2 Done, Play 3 Done, Play 2 Done, Play 2 Done])]), Play 1
     (Reply [Play 7 Done, Play 7 Done, Play 7 Done, Play 7 Done, Play 7 Done, Play 6 (Reply
     [Play 2 Done, Play 5 (Reply [Play 3 Done, Play 0 Done]), Play 2 Done, Play 2 Done])])]"

definition cert_X_6 :: cert where
  "cert_X_6 =
     Reply [Play 2 (Reply [Play 4 Done, Play 4 Done, Play 8 (Reply [Play 5 Done, Play 5 Done,
     Play 7 Done, Play 5 Done]), Play 4 Done, Play 4 Done, Play 4 Done]), Play 0 (Reply [Play 3
     Done, Play 4 (Reply [Play 8 Done, Play 2 Done, Play 2 Done, Play 2 Done]), Play 3 Done,
     Play 3 Done, Play 3 Done, Play 3 Done]), Play 0 (Reply [Play 3 Done, Play 8 (Reply [Play 4
     Done, Play 7 Done, Play 4 Done, Play 4 Done]), Play 3 Done, Play 3 Done, Play 3 Done, Play
     3 Done]), Play 4 (Reply [Play 2 Done, Play 2 Done, Play 7 (Reply [Play 1 Done, Play 8
     Done, Play 1 Done, Play 1 Done]), Play 2 Done, Play 2 Done, Play 2 Done]), Play 3 (Reply
     [Play 8 (Reply [Play 7 Done, Play 7 Done, Play 7 Done, Play 1 (Reply [Play 5 Done, Play 2
     Done])]), Play 0 Done, Play 0 Done, Play 0 Done, Play 0 Done, Play 0 Done]), Play 0 (Reply
     [Play 3 Done, Play 3 Done, Play 4 (Reply [Play 2 Done, Play 8 Done, Play 2 Done, Play 2
     Done]), Play 3 Done, Play 3 Done, Play 3 Done]), Play 0 (Reply [Play 3 Done, Play 3 Done,
     Play 2 (Reply [Play 4 Done, Play 1 Done, Play 1 Done, Play 1 Done]), Play 3 Done, Play 3
     Done, Play 3 Done]), Play 0 (Reply [Play 3 Done, Play 3 Done, Play 2 (Reply [Play 4 Done,
     Play 1 Done, Play 1 Done, Play 1 Done]), Play 3 Done, Play 3 Done, Play 3 Done])]"

definition cert_X_8 :: cert where
  "cert_X_8 =
     Reply [Play 2 (Reply [Play 5 Done, Play 5 Done, Play 5 Done, Play 6 (Reply [Play 4 Done,
     Play 4 Done, Play 7 Done, Play 4 Done]), Play 5 Done, Play 5 Done]), Play 2 (Reply [Play 5
     Done, Play 5 Done, Play 5 Done, Play 4 (Reply [Play 6 Done, Play 0 Done, Play 0 Done, Play
     0 Done]), Play 5 Done, Play 5 Done]), Play 0 (Reply [Play 4 Done, Play 4 Done, Play 6
     (Reply [Play 3 Done, Play 7 Done, Play 3 Done, Play 3 Done]), Play 4 Done, Play 4 Done,
     Play 4 Done]), Play 2 (Reply [Play 5 Done, Play 5 Done, Play 5 Done, Play 4 (Reply [Play 6
     Done, Play 0 Done, Play 0 Done, Play 0 Done]), Play 5 Done, Play 5 Done]), Play 5 (Reply
     [Play 2 Done, Play 2 Done, Play 6 (Reply [Play 7 Done, Play 7 Done, Play 7 Done, Play 1
     (Reply [Play 3 Done, Play 0 Done])]), Play 2 Done, Play 2 Done, Play 2 Done]), Play 4
     (Reply [Play 6 (Reply [Play 2 Done, Play 7 Done, Play 2 Done, Play 2 Done]), Play 0 Done,
     Play 0 Done, Play 0 Done, Play 0 Done, Play 0 Done]), Play 0 (Reply [Play 4 Done, Play 4
     Done, Play 4 Done, Play 2 (Reply [Play 5 Done, Play 1 Done, Play 1 Done, Play 1 Done]),
     Play 4 Done, Play 4 Done]), Play 2 (Reply [Play 5 Done, Play 5 Done, Play 5 Done, Play 5
     Done, Play 0 (Reply [Play 4 Done, Play 1 Done, Play 1 Done, Play 1 Done]), Play 5 Done])]"

definition cert_O :: cert where
  "cert_O =
     Reply [Play 4 (Reply [Play 2 (Reply [Play 6 Done, Play 6 Done, Play 3 (Reply [Play 7
     (Reply [Done]), Play 5 Done, Play 5 Done]), Play 6 Done, Play 6 Done]), Play 1 (Reply
     [Play 7 Done, Play 7 Done, Play 7 Done, Play 3 (Reply [Play 8 (Reply [Done]), Play 5 Done,
     Play 5 Done]), Play 7 Done]), Play 6 (Reply [Play 2 Done, Play 1 (Reply [Play 7 Done, Play
     5 (Reply [Done]), Play 7 Done]), Play 2 Done, Play 2 Done, Play 2 Done]), Play 1 (Reply
     [Play 7 Done, Play 7 Done, Play 7 Done, Play 6 (Reply [Play 8 (Reply [Done]), Play 2 Done,
     Play 2 Done]), Play 7 Done]), Play 3 (Reply [Play 5 Done, Play 5 Done, Play 1 (Reply [Play
     7 Done, Play 8 (Reply [Done]), Play 7 Done]), Play 5 Done, Play 5 Done]), Play 3 (Reply
     [Play 5 Done, Play 5 Done, Play 2 (Reply [Play 6 Done, Play 8 (Reply [Done]), Play 6
     Done]), Play 5 Done, Play 5 Done]), Play 1 (Reply [Play 7 Done, Play 7 Done, Play 7 Done,
     Play 7 Done, Play 6 (Reply [Play 5 (Reply [Done]), Play 2 Done, Play 2 Done])])]), Play 4
     (Reply [Play 2 (Reply [Play 6 Done, Play 6 Done, Play 3 (Reply [Play 7 (Reply [Done]),
     Play 5 Done, Play 5 Done]), Play 6 Done, Play 6 Done]), Play 0 (Reply [Play 8 Done, Play 8
     Done, Play 8 Done, Play 8 Done, Play 5 (Reply [Play 6 (Reply [Done]), Play 3 Done, Play 3
     Done])]), Play 0 (Reply [Play 8 Done, Play 8 Done, Play 8 Done, Play 8 Done, Play 2 (Reply
     [Play 6 Done, Play 7 (Reply [Done]), Play 6 Done])]), Play 0 (Reply [Play 8 Done, Play 8
     Done, Play 8 Done, Play 8 Done, Play 2 (Reply [Play 6 Done, Play 7 (Reply [Done]), Play 6
     Done])]), Play 3 (Reply [Play 5 Done, Play 5 Done, Play 8 (Reply [Play 2 (Reply [Done]),
     Play 0 Done, Play 0 Done]), Play 5 Done, Play 5 Done]), Play 0 (Reply [Play 8 Done, Play 8
     Done, Play 8 Done, Play 8 Done, Play 6 (Reply [Play 3 Done, Play 2 Done, Play 2 Done])]),
     Play 3 (Reply [Play 5 Done, Play 5 Done, Play 2 (Reply [Play 6 Done, Play 7 (Reply
     [Done]), Play 6 Done]), Play 5 Done, Play 5 Done])]), Play 4 (Reply [Play 1 (Reply [Play 7
     Done, Play 7 Done, Play 7 Done, Play 3 (Reply [Play 8 (Reply [Done]), Play 5 Done, Play 5
     Done]), Play 7 Done]), Play 0 (Reply [Play 8 Done, Play 8 Done, Play 8 Done, Play 8 Done,
     Play 5 (Reply [Play 6 (Reply [Done]), Play 3 Done, Play 3 Done])]), Play 1 (Reply [Play 7
     Done, Play 7 Done, Play 7 Done, Play 8 (Reply [Play 6 (Reply [Done]), Play 0 Done, Play 0
     Done]), Play 7 Done]), Play 8 (Reply [Play 1 (Reply [Play 7 Done, Play 7 Done, Play 3
     (Reply [Done])]), Play 0 Done, Play 0 Done, Play 0 Done, Play 0 Done]), Play 1 (Reply
     [Play 7 Done, Play 7 Done, Play 7 Done, Play 8 (Reply [Play 3 (Reply [Done]), Play 0 Done,
     Play 0 Done]), Play 7 Done]), Play 3 (Reply [Play 5 Done, Play 5 Done, Play 8 (Reply [Play
     1 (Reply [Done]), Play 0 Done, Play 0 Done]), Play 5 Done, Play 5 Done]), Play 5 (Reply
     [Play 3 Done, Play 3 Done, Play 1 (Reply [Play 7 Done, Play 7 Done, Play 6 (Reply
     [Done])]), Play 3 Done, Play 3 Done])]), Play 4 (Reply [Play 6 (Reply [Play 2 Done, Play 1
     (Reply [Play 7 Done, Play 5 (Reply [Done]), Play 7 Done]), Play 2 Done, Play 2 Done, Play
     2 Done]), Play 0 (Reply [Play 8 Done, Play 8 Done, Play 8 Done, Play 8 Done, Play 2 (Reply
     [Play 6 Done, Play 7 (Reply [Done]), Play 6 Done])]), Play 1 (Reply [Play 7 Done, Play 7
     Done, Play 7 Done, Play 8 (Reply [Play 6 (Reply [Done]), Play 0 Done, Play 0 Done]), Play
     7 Done]), Play 0 (Reply [Play 8 Done, Play 8 Done, Play 8 Done, Play 8 Done, Play 2 (Reply
     [Play 6 Done, Play 1 Done, Play 1 Done])]), Play 0 (Reply [Play 8 Done, Play 8 Done, Play
     8 Done, Play 8 Done, Play 7 (Reply [Play 2 (Reply [Done]), Play 1 Done, Play 1 Done])]),
     Play 0 (Reply [Play 8 Done, Play 8 Done, Play 8 Done, Play 8 Done, Play 6 (Reply [Play 2
     Done, Play 5 (Reply [Done]), Play 2 Done])]), Play 1 (Reply [Play 7 Done, Play 7 Done,
     Play 7 Done, Play 7 Done, Play 6 (Reply [Play 2 Done, Play 5 (Reply [Done]), Play 2
     Done])])]), Play 0 (Reply [Play 7 (Reply [Play 6 (Reply [Play 8 Done, Play 3 Done, Play 3
     Done]), Play 5 (Reply [Play 6 (Reply [Done]), Play 2 (Reply [Done]), Play 2 (Reply
     [Done])]), Play 3 (Reply [Play 6 Done, Play 2 (Reply [Done]), Play 6 Done]), Play 2 (Reply
     [Play 5 (Reply [Done]), Play 3 (Reply [Done]), Play 3 (Reply [Done])]), Play 3 (Reply
     [Play 6 Done, Play 6 Done, Play 2 (Reply [Done])])]), Play 6 (Reply [Play 3 Done, Play 5
     (Reply [Play 7 (Reply [Done]), Play 1 (Reply [Done]), Play 1 (Reply [Done])]), Play 3
     Done, Play 3 Done, Play 3 Done]), Play 5 (Reply [Play 7 (Reply [Play 6 (Reply [Done]),
     Play 2 (Reply [Done]), Play 2 (Reply [Done])]), Play 6 (Reply [Play 7 (Reply [Done]), Play
     1 (Reply [Done]), Play 1 (Reply [Done])]), Play 2 (Reply [Play 8 Done, Play 1 Done, Play 1
     Done]), Play 1 (Reply [Play 6 (Reply [Done]), Play 2 Done, Play 2 Done]), Play 1 (Reply
     [Play 6 (Reply [Done]), Play 2 Done, Play 2 Done])]), Play 3 (Reply [Play 6 Done, Play 6
     Done, Play 2 (Reply [Play 7 (Reply [Done]), Play 1 Done, Play 1 Done]), Play 6 Done, Play
     6 Done]), Play 2 (Reply [Play 7 (Reply [Play 5 (Reply [Done]), Play 3 (Reply [Done]), Play
     3 (Reply [Done])]), Play 1 Done, Play 1 Done, Play 1 Done, Play 1 Done]), Play 1 (Reply
     [Play 6 (Reply [Play 5 (Reply [Done]), Play 3 Done, Play 3 Done]), Play 2 Done, Play 2
     Done, Play 2 Done, Play 2 Done]), Play 2 (Reply [Play 7 (Reply [Play 5 (Reply [Done]),
     Play 3 (Reply [Done]), Play 3 (Reply [Done])]), Play 1 Done, Play 1 Done, Play 1 Done,
     Play 1 Done])]), Play 4 (Reply [Play 1 (Reply [Play 7 Done, Play 7 Done, Play 7 Done, Play
     6 (Reply [Play 8 (Reply [Done]), Play 2 Done, Play 2 Done]), Play 7 Done]), Play 0 (Reply
     [Play 8 Done, Play 8 Done, Play 8 Done, Play 8 Done, Play 2 (Reply [Play 6 Done, Play 7
     (Reply [Done]), Play 6 Done])]), Play 8 (Reply [Play 1 (Reply [Play 7 Done, Play 7 Done,
     Play 3 (Reply [Done])]), Play 0 Done, Play 0 Done, Play 0 Done, Play 0 Done]), Play 0
     (Reply [Play 8 Done, Play 8 Done, Play 8 Done, Play 8 Done, Play 2 (Reply [Play 6 Done,
     Play 1 Done, Play 1 Done])]), Play 1 (Reply [Play 7 Done, Play 7 Done, Play 7 Done, Play 8
     (Reply [Play 3 (Reply [Done]), Play 0 Done, Play 0 Done]), Play 7 Done]), Play 2 (Reply
     [Play 6 Done, Play 6 Done, Play 6 Done, Play 8 (Reply [Play 3 (Reply [Done]), Play 0 Done,
     Play 0 Done]), Play 6 Done]), Play 2 (Reply [Play 6 Done, Play 6 Done, Play 6 Done, Play 7
     (Reply [Play 1 Done, Play 0 (Reply [Done]), Play 1 Done]), Play 6 Done])]), Play 4 (Reply
     [Play 3 (Reply [Play 5 Done, Play 5 Done, Play 1 (Reply [Play 7 Done, Play 8 (Reply
     [Done]), Play 7 Done]), Play 5 Done, Play 5 Done]), Play 3 (Reply [Play 5 Done, Play 5
     Done, Play 8 (Reply [Play 2 (Reply [Done]), Play 0 Done, Play 0 Done]), Play 5 Done, Play
     5 Done]), Play 1 (Reply [Play 7 Done, Play 7 Done, Play 7 Done, Play 8 (Reply [Play 3
     (Reply [Done]), Play 0 Done, Play 0 Done]), Play 7 Done]), Play 0 (Reply [Play 8 Done,
     Play 8 Done, Play 8 Done, Play 8 Done, Play 7 (Reply [Play 2 (Reply [Done]), Play 1 Done,
     Play 1 Done])]), Play 1 (Reply [Play 7 Done, Play 7 Done, Play 7 Done, Play 8 (Reply [Play
     3 (Reply [Done]), Play 0 Done, Play 0 Done]), Play 7 Done]), Play 8 (Reply [Play 3 (Reply
     [Play 5 Done, Play 5 Done, Play 1 (Reply [Done])]), Play 0 Done, Play 0 Done, Play 0 Done,
     Play 0 Done]), Play 7 (Reply [Play 1 Done, Play 3 (Reply [Play 5 Done, Play 5 Done, Play 2
     (Reply [Done])]), Play 1 Done, Play 1 Done, Play 1 Done])]), Play 4 (Reply [Play 3 (Reply
     [Play 5 Done, Play 5 Done, Play 2 (Reply [Play 6 Done, Play 8 (Reply [Done]), Play 6
     Done]), Play 5 Done, Play 5 Done]), Play 0 (Reply [Play 8 Done, Play 8 Done, Play 8 Done,
     Play 8 Done, Play 6 (Reply [Play 3 Done, Play 2 Done, Play 2 Done])]), Play 3 (Reply [Play
     5 Done, Play 5 Done, Play 8 (Reply [Play 1 (Reply [Done]), Play 0 Done, Play 0 Done]),
     Play 5 Done, Play 5 Done]), Play 0 (Reply [Play 8 Done, Play 8 Done, Play 8 Done, Play 8
     Done, Play 6 (Reply [Play 2 Done, Play 5 (Reply [Done]), Play 2 Done])]), Play 2 (Reply
     [Play 6 Done, Play 6 Done, Play 6 Done, Play 8 (Reply [Play 3 (Reply [Done]), Play 0 Done,
     Play 0 Done]), Play 6 Done]), Play 8 (Reply [Play 3 (Reply [Play 5 Done, Play 5 Done, Play
     1 (Reply [Done])]), Play 0 Done, Play 0 Done, Play 0 Done, Play 0 Done]), Play 6 (Reply
     [Play 2 Done, Play 2 Done, Play 5 (Reply [Play 3 Done, Play 3 Done, Play 0 (Reply
     [Done])]), Play 2 Done, Play 2 Done])]), Play 4 (Reply [Play 1 (Reply [Play 7 Done, Play 7
     Done, Play 7 Done, Play 7 Done, Play 6 (Reply [Play 5 (Reply [Done]), Play 2 Done, Play 2
     Done])]), Play 3 (Reply [Play 5 Done, Play 5 Done, Play 2 (Reply [Play 6 Done, Play 7
     (Reply [Done]), Play 6 Done]), Play 5 Done, Play 5 Done]), Play 5 (Reply [Play 3 Done,
     Play 3 Done, Play 1 (Reply [Play 7 Done, Play 7 Done, Play 6 (Reply [Done])]), Play 3
     Done, Play 3 Done]), Play 1 (Reply [Play 7 Done, Play 7 Done, Play 7 Done, Play 7 Done,
     Play 6 (Reply [Play 2 Done, Play 5 (Reply [Done]), Play 2 Done])]), Play 2 (Reply [Play 6
     Done, Play 6 Done, Play 6 Done, Play 7 (Reply [Play 1 Done, Play 0 (Reply [Done]), Play 1
     Done]), Play 6 Done]), Play 7 (Reply [Play 1 Done, Play 3 (Reply [Play 5 Done, Play 5
     Done, Play 2 (Reply [Done])]), Play 1 Done, Play 1 Done, Play 1 Done]), Play 6 (Reply
     [Play 2 Done, Play 2 Done, Play 5 (Reply [Play 3 Done, Play 3 Done, Play 0 (Reply
     [Done])]), Play 2 Done, Play 2 Done])])]"


lemma still_open_moves: "still_open board \<Longrightarrow> available_moves board \<noteq> []"
  by (simp add: still_open_def is_board_full_iff)

lemma unpruned_open_max:
  assumes "still_open board"
  shows "unpruned board player True =
     Max ((\<lambda>mv. unpruned (board[mv := Some player]) (opponent player) False)
            ` set (available_moves board))"
  using assms by (subst unpruned.simps) (simp add: still_open_def)

lemma unpruned_open_min:
  assumes "still_open board"
  shows "unpruned board player False =
     Min ((\<lambda>mv. unpruned (board[mv := Some player]) (opponent player) True)
            ` set (available_moves board))"
  using assms by (subst unpruned.simps) (simp add: still_open_def)

lemma unpruned_child_le_max:
  assumes "still_open board" "mv \<in> set (available_moves board)"
  shows "unpruned (board[mv := Some player]) (opponent player) False \<le> unpruned board player True"
  unfolding unpruned_open_max [OF assms(1)] using assms(2) by (intro Max_ge) auto

lemma unpruned_min_le_child:
  assumes "still_open board" "mv \<in> set (available_moves board)"
  shows "unpruned board player False \<le> unpruned (board[mv := Some player]) (opponent player) True"
  unfolding unpruned_open_min [OF assms(1)] using assms(2) by (intro Min_le) auto

lemma unpruned_max_le:
  assumes "still_open board"
    and "\<forall>mv\<in>set (available_moves board).
           unpruned (board[mv := Some player]) (opponent player) False \<le> k"
  shows "unpruned board player True \<le> k"
  unfolding unpruned_open_max [OF assms(1)]
  using assms(2) still_open_moves [OF assms(1)] by (subst Max_le_iff) auto

lemma unpruned_min_ge:
  assumes "still_open board"
    and "\<forall>mv\<in>set (available_moves board).
           k \<le> unpruned (board[mv := Some player]) (opponent player) True"
  shows "k \<le> unpruned board player False"
  unfolding unpruned_open_min [OF assms(1)]
  using assms(2) still_open_moves [OF assms(1)] by (subst Min_ge_iff) auto

lemma opponent_is_X: "(opponent p = MarkX) = (p \<noteq> MarkX)"
  by (cases p) (simp_all add: opponent_def)

lemma safe_sound:
  "safe me c board current \<Longrightarrow>
   (me = MarkX \<longrightarrow> 0 \<le> unpruned board current (current = MarkX))
   \<and> (me = MarkO \<longrightarrow> unpruned board current (current = MarkX) \<le> 0)"
proof (induction me c board current rule: safe.induct)
  case (1 me board current)
  then show ?case
    by (cases me) (auto simp: finished_unbeaten_def split: sum.splits option.splits)
next
  case (2 me mv c board current)
  from "2.prems" have op: "still_open board" and cur: "current = me"
    and mv: "mv \<in> set (available_moves board)"
    and child: "safe me c (board[mv := Some current]) (opponent current)"
    by (auto simp: available_moves_set)
  note IH = "2.IH" [OF child]
  show ?case
  proof (cases me)
    case MarkX
    with IH cur have "0 \<le> unpruned (board[mv := Some current]) (opponent current) False"
      by (simp add: opponent_def)
    also have "\<dots> \<le> unpruned board current True" using op mv by (rule unpruned_child_le_max)
    finally show ?thesis using MarkX cur by simp
  next
    case MarkO
    have "unpruned board current False
            \<le> unpruned (board[mv := Some current]) (opponent current) True"
      using op mv by (rule unpruned_min_le_child)
    also have "\<dots> \<le> 0" using IH cur MarkO by (simp add: opponent_def)
    finally show ?thesis using MarkO cur by simp
  qed
next
  case (3 me cs board current)
  from "3.prems" have op: "still_open board" and cur: "current \<noteq> me"
    and all: "list_all2 (\<lambda>c mv. safe me c (board[mv := Some current]) (opponent current))
            cs (available_moves board)"
    by simp_all
  have each: "\<exists>c\<in>set cs. safe me c (board[mv := Some current]) (opponent current)"
    if "mv \<in> set (available_moves board)" for mv
    using all that by (metis in_set_conv_nth list_all2_conv_all_nth)
  show ?case
  proof (cases me)
    case MarkX
    then have c: "current = MarkO" using cur by (cases current) auto
    have "\<forall>mv\<in>set (available_moves board).
            0 \<le> unpruned (board[mv := Some current]) (opponent current) True"
    proof
      fix mv assume mv: "mv \<in> set (available_moves board)"
      from each [OF mv] obtain c' where "c' \<in> set cs"
        "safe me c' (board[mv := Some current]) (opponent current)" by blast
      from "3.IH" [OF this(1) mv this(2)] MarkX c
      show "0 \<le> unpruned (board[mv := Some current]) (opponent current) True"
        by (simp add: opponent_def)
    qed
    with op have "0 \<le> unpruned board current False" by (rule unpruned_min_ge)
    then show ?thesis using MarkX c by simp
  next
    case MarkO
    then have c: "current = MarkX" using cur by (cases current) auto
    have "\<forall>mv\<in>set (available_moves board).
            unpruned (board[mv := Some current]) (opponent current) False \<le> 0"
    proof
      fix mv assume mv: "mv \<in> set (available_moves board)"
      from each [OF mv] obtain c' where "c' \<in> set cs"
        "safe me c' (board[mv := Some current]) (opponent current)" by blast
      from "3.IH" [OF this(1) mv this(2)] MarkO c
      show "unpruned (board[mv := Some current]) (opponent current) False \<le> 0"
        by (simp add: opponent_def)
    qed
    with op have "unpruned board current True \<le> 0" by (rule unpruned_max_le)
    then show ?thesis using MarkO c by simp
  qed
qed

text \<open>
  The six strategies: for \<open>X\<close> after each of its five openings, and for \<open>O\<close> from the
  empty board. Each is checked by evaluation.
\<close>

lemma safe_X_0: "safe MarkX cert_X_0 (new_board[0 := Some MarkX]) MarkO"
  by code_simp

lemma safe_X_2: "safe MarkX cert_X_2 (new_board[2 := Some MarkX]) MarkO"
  by code_simp

lemma safe_X_4: "safe MarkX cert_X_4 (new_board[4 := Some MarkX]) MarkO"
  by code_simp

lemma safe_X_6: "safe MarkX cert_X_6 (new_board[6 := Some MarkX]) MarkO"
  by code_simp

lemma safe_X_8: "safe MarkX cert_X_8 (new_board[8 := Some MarkX]) MarkO"
  by code_simp

lemma safe_O: "safe MarkO cert_O new_board MarkX"
  by code_simp

lemma new_board_open: "still_open new_board"
  by (simp add: still_open_def new_board_def check_winner_def WIN_LINES_def is_board_full_def
      list_all_iff)

lemma new_board_moves: "set (available_moves new_board) = {0, 1, 2, 3, 4, 5, 6, 7, 8}"
  by (auto simp: available_moves_set new_board_def)

lemma empty_value_le: "unpruned new_board MarkX True \<le> 0"
  using safe_sound [OF safe_O] by simp

lemma opening_value_ge:
  assumes "c \<in> set opening_cells"
  shows "0 \<le> unpruned (new_board[c := Some MarkX]) MarkO False"
proof -
  from assms have "c = 0 \<or> c = 2 \<or> c = 4 \<or> c = 6 \<or> c = 8" by (simp add: opening_cells_def)
  then show ?thesis
    using safe_sound [OF safe_X_0] safe_sound [OF safe_X_2] safe_sound [OF safe_X_4]
      safe_sound [OF safe_X_6] safe_sound [OF safe_X_8]
    by auto
qed

lemma opening_value:
  assumes "c \<in> set opening_cells"
  shows "unpruned (new_board[c := Some MarkX]) MarkO False = 0"
    and "unpruned new_board MarkX True = 0"
proof -
  from assms have "c \<in> set (available_moves new_board)"
    by (auto simp: opening_cells_def new_board_moves)
  with new_board_open
  have "unpruned (new_board[c := Some MarkX]) (opponent MarkX) False \<le> unpruned new_board MarkX True"
    by (rule unpruned_child_le_max)
  then have le: "unpruned (new_board[c := Some MarkX]) MarkO False \<le> unpruned new_board MarkX True"
    by (simp add: opponent_def)
  with opening_value_ge [OF assms] empty_value_le
  show "unpruned (new_board[c := Some MarkX]) MarkO False = 0"
    and "unpruned new_board MarkX True = 0"
    by simp_all
qed


section \<open>Games against the search\<close>

text \<open>
  The game loop of \<open>play_game\<close>: the board starts empty, \<open>current\<close> starts as \<open>X\<close> and
  alternates after every move, and the loop ends when \<open>game_over\<close> holds. In each of the
  three branches of its \<open>if\<close> the mark \<open>current\<close> decides who moves: the program for
  its own mark, by \<open>best_move_for\<close>, and otherwise the person, who may choose any
  empty cell (\<open>human_move\<close> asks again until the cell is in range and empty).
  \<open>plays depth ai board current final\<close>: from \<open>board\<close> with \<open>current\<close> to move, the
  loop can end with the board \<open>final\<close>, where the marks \<open>ai\<close> holds for are played by
  \<open>best_move_for\<close> and the others freely.
\<close>

inductive plays :: "nat \<Rightarrow> (mark \<Rightarrow> bool) \<Rightarrow> board \<Rightarrow> mark \<Rightarrow> board \<Rightarrow> bool"
  for depth :: nat and ai :: "mark \<Rightarrow> bool"
  where
    finished: "game_over board = Inr True \<Longrightarrow> plays depth ai board current board"
  | ai_move: "game_over board = Inr False \<Longrightarrow> ai current \<Longrightarrow> rnd < length opening_cells \<Longrightarrow>
       best_move_for depth rnd board current = Inr (board', Some pos) \<Longrightarrow>
       plays depth ai (board'[pos := Some current]) (opponent current) final \<Longrightarrow>
       plays depth ai board current final"
  | other_move: "game_over board = Inr False \<Longrightarrow> \<not> ai current \<Longrightarrow>
       pos < 9 \<Longrightarrow> getitem board pos = Inr None \<Longrightarrow>
       plays depth ai (board[pos := Some current]) (opponent current) final \<Longrightarrow>
       plays depth ai board current final"

lemma game_over_False: "game_over board = Inr False \<longleftrightarrow> still_open board"
  by (auto simp: game_over_def still_open_def split: sum.splits)

lemma unpruned_range:
  "9 \<le> length board \<Longrightarrow>
   - 1 \<le> unpruned board player maximizing \<and> unpruned board player maximizing \<le> 1"
proof (induction board player maximizing rule: unpruned.induct)
  case (1 board player maximizing)
  from "1.prems" obtain w where w: "check_winner board = Inr w"
    using check_winner_total by blast
  from w show ?case
  proof (cases rule: nonterminal_cases)
    case won_X
    then show ?thesis using w by simp
  next
    case won_O
    then show ?thesis using w by simp
  next
    case full
    then show ?thesis using w by simp
  next
    case open_
    then have op: "still_open board" using w by (simp add: still_open_def)
    have open': "check_winner board \<noteq> Inr (Some MarkX)" "check_winner board \<noteq> Inr (Some MarkO)"
      "\<not> is_board_full board"
      using w open_ by simp_all
    from op obtain mv where mv: "mv \<in> set (available_moves board)"
      using still_open_moves by fastforce
    have len: "9 \<le> length (board[m := Some player])" for m using "1.prems" by simp
    show ?thesis
    proof (cases maximizing)
      case mx: True
      have ch: "- 1 \<le> unpruned (board[m := Some player]) (opponent player) False
              \<and> unpruned (board[m := Some player]) (opponent player) False \<le> 1"
        if "m \<in> set (available_moves board)" for m
        using "1.IH"(1) [OF open' mx that len] .
      have "unpruned board player True \<le> 1"
        using op ch by (intro unpruned_max_le) auto
      moreover have "- 1 \<le> unpruned (board[mv := Some player]) (opponent player) False"
        using ch [OF mv] by simp
      moreover have "unpruned (board[mv := Some player]) (opponent player) False
                       \<le> unpruned board player True"
        using op mv by (rule unpruned_child_le_max)
      ultimately show ?thesis using mx by simp
    next
      case mn: False
      have ch: "- 1 \<le> unpruned (board[m := Some player]) (opponent player) True
              \<and> unpruned (board[m := Some player]) (opponent player) True \<le> 1"
        if "m \<in> set (available_moves board)" for m
        using "1.IH"(2) [OF open' mn that len] .
      have "- 1 \<le> unpruned board player False"
        using op ch by (intro unpruned_min_ge) auto
      moreover have "unpruned (board[mv := Some player]) (opponent player) True \<le> 1"
        using ch [OF mv] by simp
      moreover have "unpruned board player False
                       \<le> unpruned (board[mv := Some player]) (opponent player) True"
        using op mv by (rule unpruned_min_le_child)
      ultimately show ?thesis using mn by simp
    qed
  qed
qed

lemma search_move_keeps_value:
  assumes len: "length board = 9" and op: "still_open board"
    and marked: "\<not> list_all (\<lambda>v. v = None) board" and depth: "9 < depth"
  shows "\<exists>mv. best_move_for depth rnd board p = Inr (board, Some mv)
           \<and> mv \<in> set (available_moves board)
           \<and> unpruned (board[mv := Some p]) (opponent p) (opponent p = MarkX)
               = unpruned board p (p = MarkX)"
proof -
  have l: "9 \<le> length board" using len by simp
  have c: "count_empty board < depth" using len depth count_empty_le [of board] by simp
  have ab: "MInf < PInf" by simp
  from op have w: "check_winner board = Inr None" and nf: "\<not> is_board_full board"
    by (simp_all add: still_open_def)
  from minimax_fishburn [OF l c ab, of p "p = MarkX"] obtain s m where
    r: "minimax depth board p (p = MarkX) MInf PInf = Inr (board, s, m)"
    and f: "fishburn MInf PInf (Fin (unpruned board p (p = MarkX))) (Fin s)"
    and o: "check_winner board = Inr None \<and> \<not> is_board_full board
          \<and> MInf < Fin s \<and> Fin s < PInf \<longrightarrow>
          (\<exists>j\<in>set (available_moves board). m = Some j
             \<and> unpruned (board[j := Some p]) (opponent p) (\<not> (p = MarkX)) = s)"
    by blast
  from f have s: "s = unpruned board p (p = MarkX)" by (rule full_window_exact)
  from o w nf obtain j where j: "j \<in> set (available_moves board)" "m = Some j"
    "unpruned (board[j := Some p]) (opponent p) (p \<noteq> MarkX) = s"
    by auto
  have "best_move_for depth rnd board p = Inr (board, Some j)"
    using marked r j(2) by (cases p) (simp_all add: best_move_for_def)
  then show ?thesis using j s by (auto simp: opponent_is_X)
qed

lemma all_empty_new_board:
  "length board = 9 \<Longrightarrow> list_all (\<lambda>v. v = None) board \<Longrightarrow> board = new_board"
  by (auto simp: new_board_def list_all_iff intro!: replicate_eqI)

lemma opening_move_keeps_value:
  assumes "rnd < length opening_cells"
  shows "best_move_for depth rnd new_board p = Inr (new_board, Some (opening_cells ! rnd))"
    and "unpruned (new_board[opening_cells ! rnd := Some MarkX]) MarkO False
           = unpruned new_board MarkX True"
proof -
  have "list_all (\<lambda>v. v = None) new_board" by (simp add: new_board_def list_all_iff)
  then show "best_move_for depth rnd new_board p = Inr (new_board, Some (opening_cells ! rnd))"
    using assms by (simp add: best_move_for_def)
  have "opening_cells ! rnd \<in> set opening_cells" using assms by simp
  from opening_value [OF this]
  show "unpruned (new_board[opening_cells ! rnd := Some MarkX]) MarkO False
           = unpruned new_board MarkX True"
    by simp
qed

lemma marked_not_new_board: "pos < length board \<Longrightarrow> board[pos := Some p] \<noteq> new_board"
proof
  assume pos: "pos < length board" and e: "board[pos := Some p] = new_board"
  from pos have "board[pos := Some p] ! pos = Some p" by simp
  then have "Some p \<in> set (board[pos := Some p])" using pos by (metis length_list_update nth_mem)
  then show False unfolding e by (simp add: new_board_def)
qed

lemma terminal_value:
  assumes "game_over board = Inr True"
  shows "(check_winner board = Inr (Some MarkX) \<and> unpruned board p mx = 1)
       \<or> (check_winner board = Inr (Some MarkO) \<and> unpruned board p mx = - 1)
       \<or> (check_winner board = Inr None \<and> is_board_full board \<and> unpruned board p mx = 0)"
proof -
  from assms obtain w where w: "check_winner board = Inr w" "w \<noteq> None \<or> is_board_full board"
    by (auto simp: game_over_def split: sum.splits)
  from w(1) show ?thesis
  proof (cases rule: nonterminal_cases)
    case won_X
    then show ?thesis using w by simp
  next
    case won_O
    then show ?thesis using w by simp
  next
    case full
    then show ?thesis using w by simp
  next
    case open_
    then show ?thesis using w by simp
  qed
qed

lemma other_move_bounds_value:
  assumes len: "length board = 9" and op: "still_open board"
    and pos: "pos < 9" and cell: "getitem board pos = Inr None"
  shows "pos \<in> set (available_moves board)"
    and "if p = MarkX
         then unpruned (board[pos := Some p]) (opponent p) (opponent p = MarkX)
                \<le> unpruned board p (p = MarkX)
         else unpruned board p (p = MarkX)
                \<le> unpruned (board[pos := Some p]) (opponent p) (opponent p = MarkX)"
proof -
  from pos cell len show mv: "pos \<in> set (available_moves board)"
    by (simp add: available_moves_set getitem_def)
  show "if p = MarkX
         then unpruned (board[pos := Some p]) (opponent p) (opponent p = MarkX)
                \<le> unpruned board p (p = MarkX)
         else unpruned board p (p = MarkX)
                \<le> unpruned (board[pos := Some p]) (opponent p) (opponent p = MarkX)"
    using unpruned_child_le_max [OF op mv, of p] unpruned_min_le_child [OF op mv, of p]
    by (cases p) (simp_all add: opponent_is_X)
qed

lemma plays_invariant:
  assumes run: "plays depth ai board current final"
    and depth: "9 < depth"
    and len: "length board = 9"
    and start: "board = new_board \<longrightarrow> current = MarkX"
    and good: "good (unpruned board current (current = MarkX))"
    and other_ok: "\<And>p v v'. \<not> ai p \<Longrightarrow> good v \<Longrightarrow> (if p = MarkX then v' \<le> v else v \<le> v')
                     \<Longrightarrow> - 1 \<le> v' \<Longrightarrow> v' \<le> 1 \<Longrightarrow> good v'"
  shows "length final = 9 \<and> game_over final = Inr True
         \<and> (\<exists>p. good (unpruned final p (p = MarkX)))"
  using run len start good
proof (induction rule: plays.induct)
  case (finished board current)
  then show ?case by blast
next
  case (ai_move board current rnd board' pos final)
  note len = ai_move.prems(1) and start = ai_move.prems(2) and good = ai_move.prems(3)
  from ai_move.hyps(1) have op: "still_open board" by (simp add: game_over_False)
  have step: "board' = board \<and> pos < length board
      \<and> unpruned (board[pos := Some current]) (opponent current) (opponent current = MarkX)
           = unpruned board current (current = MarkX)"
  proof (cases "list_all (\<lambda>v. v = None) board")
    case True
    with len have nb: "board = new_board" by (rule all_empty_new_board)
    with start have cur: "current = MarkX" by simp
    from opening_move_keeps_value(1) [OF ai_move.hyps(3), of depth current]
      opening_move_keeps_value(2) [OF ai_move.hyps(3)] ai_move.hyps(4) nb cur
    have "board' = board" "pos = opening_cells ! rnd"
      "unpruned (board[pos := Some current]) MarkO False = unpruned board current True"
      by simp_all
    moreover have "opening_cells ! rnd < 9"
      using ai_move.hyps(3) by (auto simp: opening_cells_def less_Suc_eq numeral_eq_Suc)
    ultimately show ?thesis using cur len by (simp add: opponent_def)
  next
    case False
    from search_move_keeps_value [OF len op False depth, of rnd current] ai_move.hyps(4)
    show ?thesis by (auto simp: available_moves_set)
  qed
  then have b': "board' = board" and pos: "pos < length board" by simp_all
  have "length (board'[pos := Some current]) = 9" using len b' by simp
  moreover have "board'[pos := Some current] = new_board \<longrightarrow> opponent current = MarkX"
    using marked_not_new_board [OF pos] b' by simp
  moreover have "good (unpruned (board'[pos := Some current]) (opponent current)
                   (opponent current = MarkX))"
    using step good by simp
  ultimately show ?case by (rule ai_move.IH)
next
  case (other_move board current pos final)
  note len = other_move.prems(1) and good = other_move.prems(3)
  from other_move.hyps(1) have op: "still_open board" by (simp add: game_over_False)
  note b1 = other_move_bounds_value(1) [OF len op other_move.hyps(3,4)]
  note b2 = other_move_bounds_value(2) [OF len op other_move.hyps(3,4), of current]
  from b1 have pos: "pos < length board" by (simp add: available_moves_set)
  have l: "9 \<le> length (board[pos := Some current])" using len by simp
  have "good (unpruned (board[pos := Some current]) (opponent current) (opponent current = MarkX))"
    using other_ok [OF other_move.hyps(2) good b2]
      unpruned_range [OF l, of "opponent current" "opponent current = MarkX"] by blast
  moreover have "length (board[pos := Some current]) = 9" using len by simp
  moreover have "board[pos := Some current] = new_board \<longrightarrow> opponent current = MarkX"
    using marked_not_new_board [OF pos] by simp
  ultimately show ?case using other_move.IH by blast
qed

lemma game_over_decided:
  "9 \<le> length board \<Longrightarrow> game_over board = Inr True \<or> game_over board = Inr False"
  using check_winner_total [of board] by (auto simp: game_over_def)

lemma plays_exist:
  "length board = 9 \<Longrightarrow> 9 < depth \<Longrightarrow> \<exists>final. plays depth ai board current final"
proof (induction "count_empty board" arbitrary: board current)
  case 0
  then have "is_board_full board"
    by (simp add: count_empty_def is_board_full_def list_all_iff filter_empty_conv)
  then have "game_over board = Inr True"
    using game_over_decided [of board] 0 by (auto simp: game_over_False still_open_def)
  then show ?case using plays.finished by blast
next
  case (Suc n)
  note len = Suc.prems(1) and depth = Suc.prems(2)
  have l: "9 \<le> length board" using len by simp
  show ?case
  proof (cases "game_over board = Inr True")
    case True
    then show ?thesis using plays.finished by blast
  next
    case False
    then have g: "game_over board = Inr False" using game_over_decided [OF l] by simp
    then have op: "still_open board" by (simp add: game_over_False)
    have next_: "\<exists>final. plays depth ai (board[mv := Some current]) (opponent current) final"
      if "mv \<in> set (available_moves board)" for mv
    proof -
      from that have "mv < length board" "board ! mv = None" by (simp_all add: available_moves_set)
      from count_empty_update [OF this, of current] Suc.hyps(2)
      have "n = count_empty (board[mv := Some current])" by simp
      moreover have "length (board[mv := Some current]) = 9" using len by simp
      ultimately show ?thesis using Suc.hyps(1) depth by blast
    qed
    show ?thesis
    proof (cases "ai current")
      case True
      have c: "count_empty board < depth" using count_empty_le [of board] len depth by simp
      have r: "0 < length opening_cells" by (simp add: opening_cells_def)
      from best_move_for_available [OF len g c r, of current] obtain mv where
        mv: "best_move_for depth 0 board current = Inr (board, Some mv)"
        "mv \<in> set (available_moves board)" by blast
      from next_ [OF mv(2)] obtain final where
        "plays depth ai (board[mv := Some current]) (opponent current) final" by blast
      with g True r mv(1) have "plays depth ai board current final" by (rule plays.ai_move)
      then show ?thesis by blast
    next
      case False
      from op obtain mv where mv: "mv \<in> set (available_moves board)"
        using still_open_moves by fastforce
      then have m9: "mv < 9" and cell: "getitem board mv = Inr None"
        using len by (simp_all add: available_moves_set)
      from next_ [OF mv] obtain final where
        "plays depth ai (board[mv := Some current]) (opponent current) final" by blast
      with g False m9 cell have "plays depth ai board current final"
        by (rule plays.other_move)
      then show ?thesis by blast
    qed
  qed
qed

lemma finished_not_lost_X:
  assumes "game_over final = Inr True" and "0 \<le> unpruned final p mx"
  shows "check_winner final \<noteq> Inr (Some MarkO)"
  using terminal_value [OF assms(1), of p mx] assms(2) by auto

lemma finished_not_lost_O:
  assumes "game_over final = Inr True" and "unpruned final p mx \<le> 0"
  shows "check_winner final \<noteq> Inr (Some MarkX)"
  using terminal_value [OF assms(1), of p mx] assms(2) by auto

lemma finished_draw:
  assumes "game_over final = Inr True" and "unpruned final p mx = 0"
  shows "check_winner final = Inr None \<and> is_board_full final"
  using terminal_value [OF assms(1), of p mx] assms(2) by auto

lemma finished_won:
  assumes "game_over final = Inr True"
    and "unpruned final p mx = (if e = MarkX then 1 else - 1)"
  shows "check_winner final = Inr (Some e)"
  using terminal_value [OF assms(1), of p mx] assms(2) by (cases e) auto

lemma new_board_length: "length new_board = 9"
  by (simp add: new_board_def)

lemma ai_X_never_loses:
  assumes "plays depth (\<lambda>m. m = MarkX) new_board MarkX final" and "9 < depth"
  shows "check_winner final \<noteq> Inr (Some MarkO)"
proof -
  have "0 \<le> unpruned new_board MarkX (MarkX = MarkX)"
    using opening_value(2) [of 0] by (simp add: opening_cells_def)
  moreover have "0 \<le> v'"
    if "\<not> p = MarkX" "0 \<le> v" "if p = MarkX then v' \<le> v else v \<le> v'" for p and v v' :: int
    using that by (cases p) auto
  ultimately obtain p where "game_over final = Inr True" "0 \<le> unpruned final p (p = MarkX)"
    using plays_invariant [of depth "\<lambda>m. m = MarkX" new_board MarkX final "\<lambda>v. 0 \<le> v",
      OF assms new_board_length]
    by blast
  then show ?thesis by (rule finished_not_lost_X)
qed

lemma ai_O_never_loses:
  assumes "plays depth (\<lambda>m. m = MarkO) new_board MarkX final" and "9 < depth"
  shows "check_winner final \<noteq> Inr (Some MarkX)"
proof -
  have "unpruned new_board MarkX (MarkX = MarkX) \<le> 0"
    using opening_value(2) [of 0] by (simp add: opening_cells_def)
  moreover have "v' \<le> 0"
    if "\<not> p = MarkO" "v \<le> 0" "if p = MarkX then v' \<le> v else v \<le> v'" for p and v v' :: int
    using that by (cases p) auto
  ultimately obtain p where "game_over final = Inr True" "unpruned final p (p = MarkX) \<le> 0"
    using plays_invariant [of depth "\<lambda>m. m = MarkO" new_board MarkX final "\<lambda>v. v \<le> 0",
      OF assms new_board_length]
    by blast
  then show ?thesis by (rule finished_not_lost_O)
qed

lemma ai_both_draw:
  assumes "plays depth (\<lambda>m. True) new_board MarkX final" and "9 < depth"
  shows "check_winner final = Inr None \<and> is_board_full final"
proof -
  have "unpruned new_board MarkX (MarkX = MarkX) = 0"
    using opening_value(2) [of 0] by (simp add: opening_cells_def)
  then obtain p where "game_over final = Inr True" "unpruned final p (p = MarkX) = 0"
    using plays_invariant [of depth "\<lambda>m. True" new_board MarkX final "\<lambda>v. v = 0",
      OF assms new_board_length]
    by blast
  then show ?thesis by (rule finished_draw)
qed

lemma ai_wins_won_position:
  assumes run: "plays depth (\<lambda>m. m = e) board current final" and depth: "9 < depth"
    and len: "length board = 9" and marked: "board \<noteq> new_board"
    and won: "unpruned board current (current = MarkX) = (if e = MarkX then 1 else - 1)"
  shows "check_winner final = Inr (Some e)"
proof -
  have "v' = (if e = MarkX then 1 else - 1)"
    if "\<not> p = e" "v = (if e = MarkX then 1 else - 1)"
      "if p = MarkX then v' \<le> v else v \<le> v'" "- 1 \<le> v'" "v' \<le> 1"
    for p and v v' :: int
    using that by (cases p; cases e) auto
  then obtain p where "game_over final = Inr True"
    "unpruned final p (p = MarkX) = (if e = MarkX then 1 else - 1)"
    using plays_invariant [of depth "\<lambda>m. m = e" board current final
      "\<lambda>v. v = (if e = MarkX then 1 else - 1)", OF run depth len _ won] marked
    by blast
  then show ?thesis by (rule finished_won)
qed

lemma best_move_keeps_value:
  assumes len: "length board = 9" and g: "game_over board = Inr False"
    and start: "board = new_board \<longrightarrow> p = MarkX"
    and rnd: "rnd < length opening_cells" and depth: "9 < depth"
  shows "\<exists>mv. best_move_for depth rnd board p = Inr (board, Some mv)
           \<and> mv \<in> set (available_moves board)
           \<and> unpruned (board[mv := Some p]) (opponent p) (opponent p = MarkX)
               = unpruned board p (p = MarkX)"
proof (cases "list_all (\<lambda>v. v = None) board")
  case True
  with len have nb: "board = new_board" by (rule all_empty_new_board)
  with start have p: "p = MarkX" by simp
  have "opening_cells ! rnd \<in> set (available_moves new_board)"
    using rnd by (auto simp: new_board_moves opening_cells_def less_Suc_eq numeral_eq_Suc)
  then show ?thesis
    using opening_move_keeps_value(1) [OF rnd, of depth p] opening_move_keeps_value(2) [OF rnd]
      nb p
    by (simp add: opponent_def)
next
  case False
  from g have "still_open board" by (simp add: game_over_False)
  from search_move_keeps_value [OF len this False depth] show ?thesis .
qed

text \<open>
  C1. With room for ten nested calls, on the boards of nine cells that alternating play
  from the empty board reaches (\<open>X\<close> moves first):
  \<^item> playing \<open>X\<close>, whatever the other side plays, the program never ends a game with a
    line of \<open>O\<close>; playing \<open>O\<close>, never with a line of \<open>X\<close>;
  \<^item> when both sides are played by \<open>best_move_for\<close>, every game ends full and with no
    line: a draw;
  \<^item> from a position that is won for the program's mark (the other side has made a
    losing move), every game ends with a line of the program's mark;
  \<^item> games do end: from every board there is a finished game;
  \<^item> the move \<open>best_move_for\<close> returns is to an empty cell and leads to a position of
    the same value (the score of the search without pruning) as the position it was asked
    about, so it gives away nothing of what the position is worth.
\<close>

theorem engine_is_unbeatable:
  assumes "9 < depth"
  shows "(\<forall>final. plays depth (\<lambda>m. m = MarkX) new_board MarkX final
            \<longrightarrow> check_winner final \<noteq> Inr (Some MarkO))
    \<and> (\<forall>final. plays depth (\<lambda>m. m = MarkO) new_board MarkX final
            \<longrightarrow> check_winner final \<noteq> Inr (Some MarkX))
    \<and> (\<forall>final. plays depth (\<lambda>m. True) new_board MarkX final
            \<longrightarrow> check_winner final = Inr None \<and> is_board_full final)
    \<and> (\<forall>board e final.
          length board = 9 \<and> board \<noteq> new_board
          \<and> unpruned board e (e = MarkX) = (if e = MarkX then 1 else - 1)
          \<and> plays depth (\<lambda>m. m = e) board e final
          \<longrightarrow> check_winner final = Inr (Some e))
    \<and> (\<forall>ai board current. length board = 9 \<longrightarrow> (\<exists>final. plays depth ai board current final))
    \<and> (\<forall>board p rnd.
          length board = 9 \<and> game_over board = Inr False \<and> (board = new_board \<longrightarrow> p = MarkX)
          \<and> rnd < length opening_cells
          \<longrightarrow> (\<exists>mv. best_move_for depth rnd board p = Inr (board, Some mv)
                 \<and> mv \<in> set (available_moves board)
                 \<and> unpruned (board[mv := Some p]) (opponent p) (opponent p = MarkX)
                     = unpruned board p (p = MarkX)))"
proof (intro conjI allI impI)
  fix final
  assume "plays depth (\<lambda>m. m = MarkX) new_board MarkX final"
  then show "check_winner final \<noteq> Inr (Some MarkO)" using assms by (rule ai_X_never_loses)
next
  fix final
  assume "plays depth (\<lambda>m. m = MarkO) new_board MarkX final"
  then show "check_winner final \<noteq> Inr (Some MarkX)" using assms by (rule ai_O_never_loses)
next
  fix final
  assume "plays depth (\<lambda>m. True) new_board MarkX final"
  then have "check_winner final = Inr None \<and> is_board_full final"
    using assms by (rule ai_both_draw)
  then show "check_winner final = Inr None" and "is_board_full final" by simp_all
next
  fix board e final
  assume "length board = 9 \<and> board \<noteq> new_board
          \<and> unpruned board e (e = MarkX) = (if e = MarkX then 1 else - 1)
          \<and> plays depth (\<lambda>m. m = e) board e final"
  then show "check_winner final = Inr (Some e)"
    using ai_wins_won_position [of depth e board e final] assms by blast
next
  fix ai board current
  assume "length (board :: board) = 9"
  then show "\<exists>final. plays depth ai board current final" using assms by (rule plays_exist)
next
  fix board p rnd
  assume "length board = 9 \<and> game_over board = Inr False \<and> (board = new_board \<longrightarrow> p = MarkX)
          \<and> rnd < length opening_cells"
  then show "\<exists>mv. best_move_for depth rnd board p = Inr (board, Some mv)
                 \<and> mv \<in> set (available_moves board)
                 \<and> unpruned (board[mv := Some p]) (opponent p) (opponent p = MarkX)
                     = unpruned board p (p = MarkX)"
    using best_move_keeps_value [of board p rnd depth] assms by blast
qed

text \<open>
  Games of each kind exist and end as stated; on the last board \<open>X\<close> is to move and can
  complete the top row.
\<close>

theorem engine_is_unbeatable_witness:
  "(\<exists>final. plays 10 (\<lambda>m. m = MarkX) new_board MarkX final
             \<and> check_winner final \<noteq> Inr (Some MarkO))
   \<and> (\<exists>final. plays 10 (\<lambda>m. m = MarkO) new_board MarkX final
             \<and> check_winner final \<noteq> Inr (Some MarkX))
   \<and> (\<exists>final. plays 10 (\<lambda>m. True) new_board MarkX final
             \<and> check_winner final = Inr None \<and> is_board_full final)
   \<and> (\<exists>final. plays 10 (\<lambda>m. m = MarkX)
               [Some MarkX, Some MarkX, None, Some MarkO, Some MarkO, None, None, None, None]
               MarkX final
             \<and> check_winner final = Inr (Some MarkX))"
proof -
  let ?b = "[Some MarkX, Some MarkX, None, Some MarkO, Some MarkO, None, None, None, None]"
  have d: "9 < (10::nat)" by simp
  note t = engine_is_unbeatable [OF d]
  note t1 = t [THEN conjunct1, rule_format]
  note t2 = t [THEN conjunct2, THEN conjunct1, rule_format]
  note t3 = t [THEN conjunct2, THEN conjunct2, THEN conjunct1, rule_format]
  note t4 = t [THEN conjunct2, THEN conjunct2, THEN conjunct2, THEN conjunct1, rule_format]
  note t5 = t [THEN conjunct2, THEN conjunct2, THEN conjunct2, THEN conjunct2, THEN conjunct1,
               rule_format]
  have l: "length new_board = 9" by (simp add: new_board_def)
  have l': "length ?b = 9" by simp
  have nb: "?b \<noteq> new_board"
  proof
    assume e: "?b = new_board"
    have "hd ?b = Some MarkX" by simp
    then have "hd new_board = Some MarkX" unfolding e .
    then show False by (simp add: new_board_def)
  qed
  have w: "unpruned ?b MarkX (MarkX = MarkX) = (if MarkX = MarkX then 1 else - 1)"
    by code_simp
  have "\<exists>final. plays 10 (\<lambda>m. m = MarkX) new_board MarkX final" by (rule t5 [OF l])
  then obtain f1 where f1: "plays 10 (\<lambda>m. m = MarkX) new_board MarkX f1" ..
  have "\<exists>final. plays 10 (\<lambda>m. m = MarkO) new_board MarkX final" by (rule t5 [OF l])
  then obtain f2 where f2: "plays 10 (\<lambda>m. m = MarkO) new_board MarkX f2" ..
  have "\<exists>final. plays 10 (\<lambda>m. True) new_board MarkX final" by (rule t5 [OF l])
  then obtain f3 where f3: "plays 10 (\<lambda>m. True) new_board MarkX f3" ..
  have "\<exists>final. plays 10 (\<lambda>m. m = MarkX) ?b MarkX final" by (rule t5 [OF l'])
  then obtain f4 where f4: "plays 10 (\<lambda>m. m = MarkX) ?b MarkX f4" ..
  from f1 have c1: "check_winner f1 \<noteq> Inr (Some MarkO)" by (rule t1)
  from f2 have c2: "check_winner f2 \<noteq> Inr (Some MarkX)" by (rule t2)
  from f3 have c3: "check_winner f3 = Inr None \<and> is_board_full f3" by (rule t3)
  from l' nb w f4 have "length ?b = 9 \<and> ?b \<noteq> new_board
          \<and> unpruned ?b MarkX (MarkX = MarkX) = (if MarkX = MarkX then 1 else - 1)
          \<and> plays 10 (\<lambda>m. m = MarkX) ?b MarkX f4"
    by (intro conjI)
  then have c4: "check_winner f4 = Inr (Some MarkX)" by (rule t4)
  from f1 c1 have g1: "\<exists>final. plays 10 (\<lambda>m. m = MarkX) new_board MarkX final
             \<and> check_winner final \<noteq> Inr (Some MarkO)" by blast
  from f2 c2 have g2: "\<exists>final. plays 10 (\<lambda>m. m = MarkO) new_board MarkX final
             \<and> check_winner final \<noteq> Inr (Some MarkX)" by blast
  from f3 c3 have g3: "\<exists>final. plays 10 (\<lambda>m. True) new_board MarkX final
             \<and> check_winner final = Inr None \<and> is_board_full final" by blast
  from f4 c4 have g4: "\<exists>final. plays 10 (\<lambda>m. m = MarkX) ?b MarkX final
             \<and> check_winner final = Inr (Some MarkX)" by blast
  from g1 g2 g3 g4 show ?thesis by (intro conjI)
qed

end
